theory Spec2Isabelle
  imports Main "HOL-Library.Word"
begin

section \<open>Strings of UTF-16 code units\<close>

text \<open>
  The splitter works on JavaScript strings: sequences of 16-bit code units, read by
  index (\<^verbatim>\<open>sql[i]\<close>), compared with one-character literals, and cut with
  \<^verbatim>\<open>substring\<close>, \<^verbatim>\<open>indexOf\<close>, \<^verbatim>\<open>endsWith\<close> and \<^verbatim>\<open>trim\<close>. A string is a list
  of 16-bit words; \<open>lit\<close> embeds an ASCII literal.
\<close>

type_synonym jsstring = "16 word list"

definition lit :: "string \<Rightarrow> jsstring" where
  "lit s = map of_char s"

abbreviation SQUOTE :: "16 word" where "SQUOTE \<equiv> 0x27"
abbreviation DQUOTE :: "16 word" where "DQUOTE \<equiv> 0x22"
abbreviation BACKTICK :: "16 word" where "BACKTICK \<equiv> 0x60"
abbreviation LBRACKET :: "16 word" where "LBRACKET \<equiv> 0x5B"
abbreviation RBRACKET :: "16 word" where "RBRACKET \<equiv> 0x5D"
abbreviation BACKSLASH :: "16 word" where "BACKSLASH \<equiv> 0x5C"
abbreviation DOLLAR :: "16 word" where "DOLLAR \<equiv> 0x24"
abbreviation HASH :: "16 word" where "HASH \<equiv> 0x23"
abbreviation DASH :: "16 word" where "DASH \<equiv> 0x2D"
abbreviation SLASH :: "16 word" where "SLASH \<equiv> 0x2F"
abbreviation STAR :: "16 word" where "STAR \<equiv> 0x2A"
abbreviation SEMI :: "16 word" where "SEMI \<equiv> 0x3B"
abbreviation NEWLINE :: "16 word" where "NEWLINE \<equiv> 0x0A"

text \<open>\<^verbatim>\<open>s[k]\<close>: the code unit at \<open>k\<close>, or \<open>None\<close> (JavaScript's undefined) out of range.\<close>

definition charAt :: "jsstring \<Rightarrow> nat \<Rightarrow> 16 word option" where
  "charAt s k = (if k < length s then Some (s ! k) else None)"

text \<open>\<^verbatim>\<open>s.substring(a, b)\<close>: both ends clamped to the length, and swapped when \<open>b < a\<close>.\<close>

definition substring :: "jsstring \<Rightarrow> nat \<Rightarrow> nat \<Rightarrow> jsstring" where
  "substring s a b =
     (let a' = min a (length s); b' = min b (length s)
      in take (max a' b' - min a' b') (drop (min a' b') s))"

text \<open>\<^verbatim>\<open>s.substring(a)\<close>.\<close>

definition substringFrom :: "jsstring \<Rightarrow> nat \<Rightarrow> jsstring" where
  "substringFrom s a = substring s a (length s)"

text \<open>
  \<^verbatim>\<open>s.indexOf(t, p)\<close>: the least index \<open>k \<ge> min p (length s)\<close> at which \<open>t\<close> occurs in
  \<open>s\<close>; \<open>None\<close> stands for the result \<open>-1\<close>.
\<close>

function indexFrom :: "jsstring \<Rightarrow> jsstring \<Rightarrow> nat \<Rightarrow> nat option" where
  "indexFrom s t k =
     (if length s < k + length t then None
      else if take (length t) (drop k s) = t then Some k
      else indexFrom s t (Suc k))"
  by pat_completeness auto
termination
  by (relation "measure (\<lambda>(s, t, k). Suc (length s) - k)") auto

definition indexOf :: "jsstring \<Rightarrow> jsstring \<Rightarrow> nat \<Rightarrow> nat option" where
  "indexOf s t p = indexFrom s t (min p (length s))"

text \<open>\<^verbatim>\<open>s.endsWith(t)\<close> for a one-character \<open>t\<close>.\<close>

definition endsWith :: "jsstring \<Rightarrow> 16 word \<Rightarrow> bool" where
  "endsWith s c = (s \<noteq> [] \<and> last s = c)"

text \<open>
  \<^verbatim>\<open>String.prototype.trim\<close> removes ECMAScript WhiteSpace and LineTerminator code
  units from both ends: TAB, LF, VT, FF, CR, SP, NBSP, U+1680, U+2000 to U+200A, U+2028,
  U+2029, U+202F, U+205F, U+3000 and U+FEFF.
\<close>

definition isWhiteSpace :: "16 word \<Rightarrow> bool" where
  "isWhiteSpace c =
     ((0x09 \<le> c \<and> c \<le> 0x0D) \<or> c = 0x20 \<or> c = 0xA0 \<or> c = 0x1680
      \<or> (0x2000 \<le> c \<and> c \<le> 0x200A) \<or> c = 0x2028 \<or> c = 0x2029
      \<or> c = 0x202F \<or> c = 0x205F \<or> c = 0x3000 \<or> c = 0xFEFF)"

definition trim :: "jsstring \<Rightarrow> jsstring" where
  "trim s = rev (dropWhile isWhiteSpace (rev (dropWhile isWhiteSpace s)))"

text \<open>The regular expression \<^verbatim>\<open>/[a-zA-Z0-9_]/\<close> on one code unit.\<close>

definition isTagChar :: "16 word \<Rightarrow> bool" where
  "isTagChar c =
     ((0x61 \<le> c \<and> c \<le> 0x7A) \<or> (0x41 \<le> c \<and> c \<le> 0x5A)
      \<or> (0x30 \<le> c \<and> c \<le> 0x39) \<or> c = 0x5F)"

section \<open>Parser configuration\<close>

record SqlParserConfig =
  dollarQuotes :: bool
  nestedBlockComments :: bool
  backtickIdentifiers :: bool
  backslashEscape :: bool
  hashLineComment :: bool
  bracketIdentifiers :: bool

text \<open>
  \<^verbatim>\<open>DatabaseType\<close> is the key type of the record \<^verbatim>\<open>SQL_PARSER_CONFIGS\<close>, whose
  literal has exactly these four keys.
\<close>

datatype DatabaseType = postgresql | mysql | mssql | sqlite

fun SQL_PARSER_CONFIGS :: "DatabaseType \<Rightarrow> SqlParserConfig" where
  "SQL_PARSER_CONFIGS postgresql =
     \<lparr>dollarQuotes = True, nestedBlockComments = True, backtickIdentifiers = False,
      backslashEscape = False, hashLineComment = False, bracketIdentifiers = False\<rparr>"
| "SQL_PARSER_CONFIGS mysql =
     \<lparr>dollarQuotes = False, nestedBlockComments = False, backtickIdentifiers = True,
      backslashEscape = True, hashLineComment = True, bracketIdentifiers = False\<rparr>"
| "SQL_PARSER_CONFIGS mssql =
     \<lparr>dollarQuotes = False, nestedBlockComments = False, backtickIdentifiers = False,
      backslashEscape = False, hashLineComment = False, bracketIdentifiers = True\<rparr>"
| "SQL_PARSER_CONFIGS sqlite =
     \<lparr>dollarQuotes = False, nestedBlockComments = False, backtickIdentifiers = True,
      backslashEscape = False, hashLineComment = False, bracketIdentifiers = True\<rparr>"

section \<open>The region loops of splitStatements\<close>

text \<open>
  Each inner \<^verbatim>\<open>while\<close> loop of \<^verbatim>\<open>splitStatements\<close> reads \<open>sql\<close> and updates the
  locals \<open>current\<close> and \<open>i\<close>; it is a function from their values at loop entry to their
  values at loop exit.
\<close>

text \<open>The body of a single-quoted string (source lines 92 to 109).\<close>

function singleQuoted :: "SqlParserConfig \<Rightarrow> jsstring \<Rightarrow> jsstring \<Rightarrow> nat \<Rightarrow> jsstring \<times> nat" where
  "singleQuoted config sql current i =
     (if i < length sql then
        if charAt sql i = Some SQUOTE \<and> charAt sql (i + 1) = Some SQUOTE then
          singleQuoted config sql (current @ [SQUOTE, SQUOTE]) (i + 2)
        else if backslashEscape config \<and> charAt sql i = Some BACKSLASH
                \<and> charAt sql (i + 1) = Some SQUOTE then
          singleQuoted config sql (current @ [BACKSLASH, SQUOTE]) (i + 2)
        else if charAt sql i = Some SQUOTE then (current @ [SQUOTE], i + 1)
        else singleQuoted config sql (current @ [sql ! i]) (i + 1)
      else (current, i))"
  by pat_completeness auto
termination
  by (relation "measure (\<lambda>(config, sql, current, i). length sql - i)") auto

text \<open>
  The body of a double-quoted, backtick-quoted or bracket-quoted identifier (source lines
  117 to 130, 138 to 150 and 158 to 170): the three loops are the same text up to the
  closing character \<open>q\<close>, which is \<^verbatim>\<open>"\<close>, the backtick and \<^verbatim>\<open>]\<close>.
\<close>

function quoted :: "16 word \<Rightarrow> jsstring \<Rightarrow> jsstring \<Rightarrow> nat \<Rightarrow> jsstring \<times> nat" where
  "quoted q sql current i =
     (if i < length sql then
        if charAt sql i = Some q \<and> charAt sql (i + 1) = Some q then
          quoted q sql (current @ [q, q]) (i + 2)
        else if charAt sql i = Some q then (current @ [q], i + 1)
        else quoted q sql (current @ [sql ! i]) (i + 1)
      else (current, i))"
  by pat_completeness auto
termination
  by (relation "measure (\<lambda>(q, sql, current, i). length sql - i)") auto

text \<open>Collecting the tag of a dollar quote (source lines 179 to 186).\<close>

function dollarTag :: "jsstring \<Rightarrow> jsstring \<Rightarrow> nat \<Rightarrow> jsstring \<times> nat" where
  "dollarTag sql tag j =
     (if j < length sql \<and> (isTagChar (sql ! j) \<or> sql ! j = DOLLAR) then
        if sql ! j = DOLLAR then (tag @ [sql ! j], j + 1)
        else dollarTag sql (tag @ [sql ! j]) (j + 1)
      else (tag, j))"
  by pat_completeness auto
termination
  by (relation "measure (\<lambda>(sql, tag, j). length sql - j)") auto

text \<open>The rest of a line comment (source lines 209 to 212 and 220 to 223).\<close>

function lineComment :: "jsstring \<Rightarrow> jsstring \<Rightarrow> nat \<Rightarrow> jsstring \<times> nat" where
  "lineComment sql current i =
     (if i < length sql \<and> sql ! i \<noteq> NEWLINE then
        lineComment sql (current @ [sql ! i]) (i + 1)
      else (current, i))"
  by pat_completeness auto
termination
  by (relation "measure (\<lambda>(sql, current, i). length sql - i)") auto

text \<open>The body of a block comment with nesting (source lines 233 to 247).\<close>

function nestedComment :: "jsstring \<Rightarrow> jsstring \<Rightarrow> nat \<Rightarrow> nat \<Rightarrow> jsstring \<times> nat" where
  "nestedComment sql current i depth =
     (if i < length sql \<and> depth > 0 then
        if charAt sql i = Some SLASH \<and> charAt sql (i + 1) = Some STAR then
          nestedComment sql (current @ [SLASH, STAR]) (i + 2) (depth + 1)
        else if charAt sql i = Some STAR \<and> charAt sql (i + 1) = Some SLASH then
          nestedComment sql (current @ [STAR, SLASH]) (i + 2) (depth - 1)
        else nestedComment sql (current @ [sql ! i]) (i + 1) depth
      else (current, i))"
  by pat_completeness auto
termination
  by (relation "measure (\<lambda>(sql, current, i, depth). length sql - i)") auto

text \<open>The body of a block comment without nesting (source lines 250 to 259).\<close>

function plainComment :: "jsstring \<Rightarrow> jsstring \<Rightarrow> nat \<Rightarrow> jsstring \<times> nat" where
  "plainComment sql current i =
     (if i < length sql then
        if charAt sql i = Some STAR \<and> charAt sql (i + 1) = Some SLASH then
          (current @ [STAR, SLASH], i + 2)
        else plainComment sql (current @ [sql ! i]) (i + 1)
      else (current, i))"
  by pat_completeness auto
termination
  by (relation "measure (\<lambda>(sql, current, i). length sql - i)") auto

declare indexFrom.simps [simp del] singleQuoted.simps [simp del] quoted.simps [simp del]
  dollarTag.simps [simp del] lineComment.simps [simp del] nestedComment.simps [simp del]
  plainComment.simps [simp del]

section \<open>One iteration of the outer loop\<close>

text \<open>
  The state of the outer loop is the triple of the locals \<open>statements\<close>, \<open>current\<close> and
  \<open>i\<close>. \<open>step\<close> is one iteration of the outer \<^verbatim>\<open>while\<close> body, entered with
  \<open>i < sql.length\<close>; every \<^verbatim>\<open>continue\<close> ends the iteration. A \<^verbatim>\<open>$\<close> that opens no
  valid tag falls through to the checks below it (\<open>stepTail\<close>, source lines 205 to 276).
\<close>

type_synonym scanState = "jsstring list \<times> jsstring \<times> nat"

definition stepTail :: "SqlParserConfig \<Rightarrow> jsstring \<Rightarrow> scanState \<Rightarrow> scanState" where
  "stepTail config sql st =
     (case st of (statements, current, i) \<Rightarrow>
        let char = sql ! i; nextChar = charAt sql (i + 1) in
        if hashLineComment config \<and> char = HASH then
          (case lineComment sql (current @ [HASH]) (i + 1) of
             (current', i') \<Rightarrow> (statements, current', i'))
        else if char = DASH \<and> nextChar = Some DASH then
          (case lineComment sql (current @ [DASH, DASH]) (i + 2) of
             (current', i') \<Rightarrow> (statements, current', i'))
        else if char = SLASH \<and> nextChar = Some STAR then
          (if nestedBlockComments config then
             (case nestedComment sql (current @ [SLASH, STAR]) (i + 2) 1 of
                (current', i') \<Rightarrow> (statements, current', i'))
           else
             (case plainComment sql (current @ [SLASH, STAR]) (i + 2) of
                (current', i') \<Rightarrow> (statements, current', i')))
        else if char = SEMI then
          (let stmt = trim current in
           (if stmt \<noteq> [] then statements @ [stmt] else statements, [], i + 1))
        else (statements, current @ [char], i + 1))"

definition step :: "SqlParserConfig \<Rightarrow> jsstring \<Rightarrow> scanState \<Rightarrow> scanState" where
  "step config sql st =
     (case st of (statements, current, i) \<Rightarrow>
        let char = sql ! i in
        if char = SQUOTE then
          (case singleQuoted config sql (current @ [char]) (i + 1) of
             (current', i') \<Rightarrow> (statements, current', i'))
        else if char = DQUOTE then
          (case quoted DQUOTE sql (current @ [char]) (i + 1) of
             (current', i') \<Rightarrow> (statements, current', i'))
        else if backtickIdentifiers config \<and> char = BACKTICK then
          (case quoted BACKTICK sql (current @ [char]) (i + 1) of
             (current', i') \<Rightarrow> (statements, current', i'))
        else if bracketIdentifiers config \<and> char = LBRACKET then
          (case quoted RBRACKET sql (current @ [char]) (i + 1) of
             (current', i') \<Rightarrow> (statements, current', i'))
        else if dollarQuotes config \<and> char = DOLLAR then
          (case dollarTag sql [DOLLAR] (i + 1) of
             (tag, j) \<Rightarrow>
               if endsWith tag DOLLAR \<and> length tag \<ge> 2 then
                 (case indexOf sql tag j of
                    Some closeIdx \<Rightarrow>
                      (statements,
                       current @ tag @ substring sql j (closeIdx + length tag),
                       closeIdx + length tag)
                  | None \<Rightarrow>
                      (statements, current @ tag @ substringFrom sql j, length sql))
               else stepTail config sql st)
        else stepTail config sql st)"

section \<open>What one iteration does\<close>

text \<open>
  \<open>stepSpec\<close> relates the state before and after one iteration entered at \<open>i\<close>: the
  cursor moves strictly forward and stays within the input; at a \<^verbatim>\<open>;\<close> the trimmed
  buffer is pushed (when it is not empty) and the buffer is reset; anywhere else the
  statement list is unchanged and the buffer grows by exactly the code units passed.
\<close>

definition stepSpec :: "jsstring \<Rightarrow> scanState \<Rightarrow> scanState \<Rightarrow> bool" where
  "stepSpec sql st st' =
     (case st of (statements, current, i) \<Rightarrow> case st' of (statements', current', i') \<Rightarrow>
        i < i' \<and> i' \<le> length sql \<and>
        (if sql ! i = SEMI
         then i' = i + 1 \<and> current' = [] \<and>
              statements' = (if trim current \<noteq> [] then statements @ [trim current] else statements)
         else statements' = statements \<and> current' @ drop i' sql = current @ drop i sql))"

section \<open>Segments of the input\<close>

text \<open>
  The vocabulary of the properties below. \<open>joinWith sep xs\<close> is \<^verbatim>\<open>xs.join(sep)\<close>;
  with the separator \<^verbatim>\<open>;\<close> it writes a list of segments back into one text.
  \<open>keptSegments\<close> trims every segment and drops those that are empty afterwards.
  \<open>rejoin\<close> is \<^verbatim>\<open>statements.join('; ') + ';'\<close>. \<open>noWhiteSpace\<close> deletes the code
  units that \<^verbatim>\<open>trim\<close> treats as white space.
\<close>

fun joinWith :: "jsstring \<Rightarrow> jsstring list \<Rightarrow> jsstring" where
  "joinWith sep [] = []"
| "joinWith sep [s] = s"
| "joinWith sep (s # t # r) = s @ sep @ joinWith sep (t # r)"

definition keptSegments :: "jsstring list \<Rightarrow> jsstring list" where
  "keptSegments segs = filter (\<lambda>s. s \<noteq> []) (map trim segs)"

definition rejoin :: "jsstring list \<Rightarrow> jsstring" where
  "rejoin statements = joinWith [SEMI, 0x20] statements @ [SEMI]"

abbreviation noWhiteSpace :: "jsstring \<Rightarrow> jsstring" where
  "noWhiteSpace s \<equiv> filter (\<lambda>c. \<not> isWhiteSpace c) s"

text \<open>
  \<open>scanPost\<close> is what the outer loop establishes when it is entered at \<open>i\<close>: it ends with
  the cursor at the end of the input, and the buffer together with the unread input is cut at
  separators into the segments pushed since (trimmed, the empty ones dropped) and the final
  buffer.
\<close>

definition scanPost :: "jsstring \<Rightarrow> scanState \<Rightarrow> scanState \<Rightarrow> bool" where
  "scanPost sql st st' =
     (case st of (statements, current, i) \<Rightarrow> case st' of (statements', current', i') \<Rightarrow>
        i' = length sql \<and>
        (\<exists>segs. current @ drop i sql = joinWith [SEMI] (segs @ [current'])
                \<and> statements' = statements @ keptSegments segs))"

section \<open>Every region loop moves the cursor forward over what it appends\<close>

text \<open>
  Each loop leaves the cursor between its entry value and the length of the input, and
  appends to \<open>current\<close> exactly the code units it passes: \<open>current @ drop i sql\<close> is
  the same before and after.
\<close>

lemma drop_one: "i < length sql \<Longrightarrow> current @ drop i sql = (current @ [sql ! i]) @ drop (i + 1) sql"
  by (simp add: Cons_nth_drop_Suc)

lemma drop_two: "i + 1 < length sql \<Longrightarrow>
   current @ drop i sql = (current @ [sql ! i, sql ! (i + 1)]) @ drop (i + 2) sql"
  by (simp add: Cons_nth_drop_Suc Suc_lessD)

lemma charAt_Some: "charAt s k = Some c \<longleftrightarrow> k < length s \<and> s ! k = c"
  by (simp add: charAt_def)

lemma singleQuoted_inv:
  "i \<le> length sql \<Longrightarrow> singleQuoted config sql current i = (c', i') \<Longrightarrow>
   i \<le> i' \<and> i' \<le> length sql \<and> c' @ drop i' sql = current @ drop i sql"
proof (induction config sql current i rule: singleQuoted.induct)
  case (1 config sql current i)
  note eq = singleQuoted.simps[of config sql current i]
  show ?case
  proof (cases "i < length sql")
    case False
    with eq "1.prems" show ?thesis by simp
  next
    case lt: True
    show ?thesis
    proof (cases "charAt sql i = Some SQUOTE \<and> charAt sql (i + 1) = Some SQUOTE")
      case True
      from "1.prems"(2) lt True have r: "singleQuoted config sql (current @ [SQUOTE, SQUOTE]) (i + 2) = (c', i')"
        by (auto simp: eq split: if_splits)
      from True have l2: "i + 1 < length sql" and c: "sql ! i = SQUOTE" "sql ! (i + 1) = SQUOTE"
        by (simp_all add: charAt_Some)
      from "1.IH"(1)[OF lt True _ r] l2 drop_two[OF l2, of current] c show ?thesis by simp
    next
      case nd: False
      show ?thesis
      proof (cases "backslashEscape config \<and> charAt sql i = Some BACKSLASH
                \<and> charAt sql (i + 1) = Some SQUOTE")
        case True
        from "1.prems"(2) lt nd True have r: "singleQuoted config sql (current @ [BACKSLASH, SQUOTE]) (i + 2) = (c', i')"
        by (auto simp: eq split: if_splits)
        from True have l2: "i + 1 < length sql" and c: "sql ! i = BACKSLASH" "sql ! (i + 1) = SQUOTE"
          by (simp_all add: charAt_Some)
        from "1.IH"(2)[OF lt nd True _ r] l2 drop_two[OF l2, of current] c show ?thesis by simp
      next
        case nb: False
        show ?thesis
        proof (cases "charAt sql i = Some SQUOTE")
          case True
          from "1.prems"(2) lt nd nb True have r: "(current @ [SQUOTE], i + 1) = (c', i')"
        by (auto simp: eq split: if_splits)
          from True have "sql ! i = SQUOTE" by (simp add: charAt_Some)
          with r lt drop_one[OF lt, of current] show ?thesis by auto
        next
          case nq: False
          from "1.prems"(2) lt nd nb nq have r: "singleQuoted config sql (current @ [sql ! i]) (i + 1) = (c', i')"
        by (auto simp: eq split: if_splits)
          from "1.IH"(3)[OF lt nd nb nq _ r] lt drop_one[OF lt, of current] show ?thesis by simp
        qed
      qed
    qed
  qed
qed

lemma quoted_inv:
  "i \<le> length sql \<Longrightarrow> quoted q sql current i = (c', i') \<Longrightarrow>
   i \<le> i' \<and> i' \<le> length sql \<and> c' @ drop i' sql = current @ drop i sql"
proof (induction q sql current i rule: quoted.induct)
  case (1 q sql current i)
  note eq = quoted.simps[of q sql current i]
  show ?case
  proof (cases "i < length sql")
    case False
    with eq "1.prems" show ?thesis by simp
  next
    case lt: True
    show ?thesis
    proof (cases "charAt sql i = Some q \<and> charAt sql (i + 1) = Some q")
      case True
      from "1.prems"(2) lt True have r: "quoted q sql (current @ [q, q]) (i + 2) = (c', i')"
        by (auto simp: eq split: if_splits)
      from True have l2: "i + 1 < length sql" and c: "sql ! i = q" "sql ! (i + 1) = q"
        by (simp_all add: charAt_Some)
      from "1.IH"(1)[OF lt True _ r] l2 drop_two[OF l2, of current] c show ?thesis by simp
    next
      case nd: False
      show ?thesis
      proof (cases "charAt sql i = Some q")
        case True
        from "1.prems"(2) lt nd True have r: "(current @ [q], i + 1) = (c', i')"
          by (auto simp: eq split: if_splits)
        from True have "sql ! i = q" by (simp add: charAt_Some)
        with r lt drop_one[OF lt, of current] show ?thesis by auto
      next
        case nq: False
        from "1.prems"(2) lt nd nq have r: "quoted q sql (current @ [sql ! i]) (i + 1) = (c', i')"
          by (auto simp: eq split: if_splits)
        from "1.IH"(2)[OF lt nd nq _ r] lt drop_one[OF lt, of current] show ?thesis by simp
      qed
    qed
  qed
qed

lemma dollarTag_inv:
  "j \<le> length sql \<Longrightarrow> dollarTag sql tag j = (tag', j') \<Longrightarrow>
   j \<le> j' \<and> j' \<le> length sql \<and> tag' @ drop j' sql = tag @ drop j sql"
proof (induction sql tag j rule: dollarTag.induct)
  case (1 sql tag j)
  note eq = dollarTag.simps[of sql tag j]
  show ?case
  proof (cases "j < length sql \<and> (isTagChar (sql ! j) \<or> sql ! j = DOLLAR)")
    case False
    with eq "1.prems" show ?thesis by auto
  next
    case go: True
    then have lt: "j < length sql" by simp
    show ?thesis
    proof (cases "sql ! j = DOLLAR")
      case True
      from "1.prems"(2) go True have r: "(tag @ [sql ! j], j + 1) = (tag', j')"
        by (auto simp: eq split: if_splits)
      with lt drop_one[OF lt, of tag] show ?thesis by auto
    next
      case nd: False
      from "1.prems"(2) go nd have r: "dollarTag sql (tag @ [sql ! j]) (j + 1) = (tag', j')"
        by (auto simp: eq split: if_splits)
      from "1.IH"[OF go nd _ r] lt drop_one[OF lt, of tag] show ?thesis by simp
    qed
  qed
qed

lemma lineComment_inv:
  "i \<le> length sql \<Longrightarrow> lineComment sql current i = (c', i') \<Longrightarrow>
   i \<le> i' \<and> i' \<le> length sql \<and> c' @ drop i' sql = current @ drop i sql"
proof (induction sql current i rule: lineComment.induct)
  case (1 sql current i)
  note eq = lineComment.simps[of sql current i]
  show ?case
  proof (cases "i < length sql \<and> sql ! i \<noteq> NEWLINE")
    case False
    with eq "1.prems" show ?thesis by auto
  next
    case go: True
    then have lt: "i < length sql" by simp
    from "1.prems"(2) go have r: "lineComment sql (current @ [sql ! i]) (i + 1) = (c', i')"
      by (auto simp: eq split: if_splits)
    from "1.IH"[OF go _ r] lt drop_one[OF lt, of current] show ?thesis by simp
  qed
qed

lemma nestedComment_inv:
  "i \<le> length sql \<Longrightarrow> nestedComment sql current i depth = (c', i') \<Longrightarrow>
   i \<le> i' \<and> i' \<le> length sql \<and> c' @ drop i' sql = current @ drop i sql"
proof (induction sql current i depth rule: nestedComment.induct)
  case (1 sql current i depth)
  note eq = nestedComment.simps[of sql current i depth]
  show ?case
  proof (cases "i < length sql \<and> depth > 0")
    case False
    with eq "1.prems" show ?thesis by auto
  next
    case go: True
    then have lt: "i < length sql" by simp
    show ?thesis
    proof (cases "charAt sql i = Some SLASH \<and> charAt sql (i + 1) = Some STAR")
      case True
      from "1.prems"(2) go True
      have r: "nestedComment sql (current @ [SLASH, STAR]) (i + 2) (depth + 1) = (c', i')"
        by (auto simp: eq split: if_splits)
      from True have l2: "i + 1 < length sql" and c: "sql ! i = SLASH" "sql ! (i + 1) = STAR"
        by (simp_all add: charAt_Some)
      from "1.IH"(1)[OF go True _ r] l2 drop_two[OF l2, of current] c show ?thesis by simp
    next
      case no: False
      show ?thesis
      proof (cases "charAt sql i = Some STAR \<and> charAt sql (i + 1) = Some SLASH")
        case True
        from "1.prems"(2) go no True
        have r: "nestedComment sql (current @ [STAR, SLASH]) (i + 2) (depth - 1) = (c', i')"
          by (auto simp: eq split: if_splits)
        from True have l2: "i + 1 < length sql" and c: "sql ! i = STAR" "sql ! (i + 1) = SLASH"
          by (simp_all add: charAt_Some)
        from "1.IH"(2)[OF go no True _ r] l2 drop_two[OF l2, of current] c show ?thesis by simp
      next
        case nc: False
        from "1.prems"(2) go no nc
        have r: "nestedComment sql (current @ [sql ! i]) (i + 1) depth = (c', i')"
          by (auto simp: eq split: if_splits)
        from "1.IH"(3)[OF go no nc _ r] lt drop_one[OF lt, of current] show ?thesis by simp
      qed
    qed
  qed
qed

lemma plainComment_inv:
  "i \<le> length sql \<Longrightarrow> plainComment sql current i = (c', i') \<Longrightarrow>
   i \<le> i' \<and> i' \<le> length sql \<and> c' @ drop i' sql = current @ drop i sql"
proof (induction sql current i rule: plainComment.induct)
  case (1 sql current i)
  note eq = plainComment.simps[of sql current i]
  show ?case
  proof (cases "i < length sql")
    case False
    with eq "1.prems" show ?thesis by simp
  next
    case lt: True
    show ?thesis
    proof (cases "charAt sql i = Some STAR \<and> charAt sql (i + 1) = Some SLASH")
      case True
      from "1.prems"(2) lt True have r: "(current @ [STAR, SLASH], i + 2) = (c', i')"
        by (auto simp: eq split: if_splits)
      from True have l2: "i + 1 < length sql" and c: "sql ! i = STAR" "sql ! (i + 1) = SLASH"
        by (simp_all add: charAt_Some)
      from r l2 drop_two[OF l2, of current] c show ?thesis by auto
    next
      case nc: False
      from "1.prems"(2) lt nc have r: "plainComment sql (current @ [sql ! i]) (i + 1) = (c', i')"
        by (auto simp: eq split: if_splits)
      from "1.IH"[OF lt nc _ r] lt drop_one[OF lt, of current] show ?thesis by simp
    qed
  qed
qed

lemma indexFrom_Some:
  "indexFrom s t k = Some r \<Longrightarrow>
   k \<le> r \<and> r + length t \<le> length s \<and> take (length t) (drop r s) = t
   \<and> (\<forall>m. k \<le> m \<and> m < r \<longrightarrow> take (length t) (drop m s) \<noteq> t)"
proof (induction s t k rule: indexFrom.induct)
  case (1 s t k)
  note eq = indexFrom.simps[of s t k]
  show ?case
  proof (cases "length s < k + length t")
    case True
    with eq "1.prems" show ?thesis by simp
  next
    case le: False
    show ?thesis
    proof (cases "take (length t) (drop k s) = t")
      case True
      with eq le "1.prems" have "r = k" by simp
      with True le show ?thesis by auto
    next
      case False
      with eq le "1.prems" have "indexFrom s t (Suc k) = Some r" by simp
      from "1.IH"[OF le False this]
      have ih: "Suc k \<le> r" "r + length t \<le> length s" "take (length t) (drop r s) = t"
        "\<forall>m. Suc k \<le> m \<and> m < r \<longrightarrow> take (length t) (drop m s) \<noteq> t" by simp_all
      have "take (length t) (drop m s) \<noteq> t" if "k \<le> m" "m < r" for m
      proof (cases "m = k")
        case True then show ?thesis using False by simp
      next
        case False
        with that have "Suc k \<le> m" by simp
        with ih(4) that show ?thesis by blast
      qed
      with ih show ?thesis by simp
    qed
  qed
qed

lemma indexFrom_None:
  "indexFrom s t k = None \<Longrightarrow> k \<le> m \<Longrightarrow> m + length t \<le> length s \<Longrightarrow>
   take (length t) (drop m s) \<noteq> t"
proof (induction s t k rule: indexFrom.induct)
  case (1 s t k)
  note eq = indexFrom.simps[of s t k]
  from "1.prems" have le: "\<not> length s < k + length t" by simp
  from eq le "1.prems"(1) have ne: "take (length t) (drop k s) \<noteq> t"
    by (simp split: if_splits)
  with eq le "1.prems"(1) have nx: "indexFrom s t (Suc k) = None" by simp
  show ?case
  proof (cases "m = k")
    case True with ne show ?thesis by simp
  next
    case False
    with "1.prems"(2) have "Suc k \<le> m" by simp
    from "1.IH"[OF le ne nx this "1.prems"(3)] show ?thesis .
  qed
qed

lemma substring_append_drop:
  "a \<le> b \<Longrightarrow> b \<le> length s \<Longrightarrow> substring s a b @ drop b s = drop a s"
proof -
  assume ab: "a \<le> b" and bl: "b \<le> length s"
  then have "substring s a b = take (b - a) (drop a s)"
    by (simp add: substring_def Let_def min_def max_def)
  moreover from ab have "drop b s = drop (b - a) (drop a s)" by simp
  ultimately show ?thesis by (simp only: append_take_drop_id)
qed

lemma substringFrom_eq: "a \<le> length s \<Longrightarrow> substringFrom s a = drop a s"
  by (simp add: substringFrom_def substring_def Let_def min_def max_def)

lemma indexOf_Some:
  "p \<le> length s \<Longrightarrow> indexOf s t p = Some r \<Longrightarrow> p \<le> r \<and> r + length t \<le> length s"
  using indexFrom_Some[of s t p r] by (simp add: indexOf_def min_def)


section \<open>Every iteration moves the cursor forward\<close>

lemma stepTail_spec:
  assumes lt: "i < length sql"
  shows "stepSpec sql (statements, current, i) (stepTail config sql (statements, current, i))"
proof -
  let ?char = "sql ! i"
  let ?next = "charAt sql (i + 1)"
  note d1 = drop_one[OF lt, of current]
  show ?thesis
  proof (cases "hashLineComment config \<and> ?char = HASH")
    case True
    obtain c k where r: "lineComment sql (current @ [HASH]) (i + 1) = (c, k)" by force
    from lt have "i + 1 \<le> length sql" by simp
    from lineComment_inv[OF this r] True d1
    have "i + 1 \<le> k" "k \<le> length sql" "c @ drop k sql = current @ drop i sql" by simp_all
    moreover from True have "?char \<noteq> SEMI" by simp
    ultimately have "stepSpec sql (statements, current, i) (statements, c, k)"
      using lt by (simp add: stepSpec_def)
    with True r show ?thesis by (auto simp add: stepTail_def)
  next
    case nh: False
    show ?thesis
    proof (cases "?char = DASH \<and> ?next = Some DASH")
      case True
      obtain c k where r: "lineComment sql (current @ [DASH, DASH]) (i + 2) = (c, k)" by force
      from True have l2: "i + 1 < length sql" and ch: "sql ! i = DASH" "sql ! (i + 1) = DASH"
        by (simp_all add: charAt_Some)
      then have "i + 2 \<le> length sql" by simp
      from lineComment_inv[OF this r] drop_two[OF l2, of current] ch
      have "i + 2 \<le> k" "k \<le> length sql" "c @ drop k sql = current @ drop i sql" by simp_all
      moreover from True have "?char \<noteq> SEMI" by simp
      ultimately have "stepSpec sql (statements, current, i) (statements, c, k)"
        using lt by (simp add: stepSpec_def)
      with nh True r show ?thesis by (auto simp add: stepTail_def)
    next
      case nd: False
      show ?thesis
      proof (cases "?char = SLASH \<and> ?next = Some STAR")
        case True
        from True have l2: "i + 1 < length sql" and ch: "sql ! i = SLASH" "sql ! (i + 1) = STAR"
          by (simp_all add: charAt_Some)
        then have l3: "i + 2 \<le> length sql" by simp
        from True have ns: "?char \<noteq> SEMI" by simp
        show ?thesis
        proof (cases "nestedBlockComments config")
          case nest: True
          obtain c k where r: "nestedComment sql (current @ [SLASH, STAR]) (i + 2) 1 = (c, k)" by force
          from nestedComment_inv[OF l3 r] drop_two[OF l2, of current] ch
          have "i + 2 \<le> k" "k \<le> length sql" "c @ drop k sql = current @ drop i sql" by simp_all
          with ns have "stepSpec sql (statements, current, i) (statements, c, k)"
            using lt by (simp add: stepSpec_def)
          with nh nd True nest r show ?thesis by (auto simp add: stepTail_def)
        next
          case plain: False
          obtain c k where r: "plainComment sql (current @ [SLASH, STAR]) (i + 2) = (c, k)" by force
          from plainComment_inv[OF l3 r] drop_two[OF l2, of current] ch
          have "i + 2 \<le> k" "k \<le> length sql" "c @ drop k sql = current @ drop i sql" by simp_all
          with ns have "stepSpec sql (statements, current, i) (statements, c, k)"
            using lt by (simp add: stepSpec_def)
          with nh nd True plain r show ?thesis by (auto simp add: stepTail_def)
        qed
      next
        case nb: False
        show ?thesis
        proof (cases "?char = SEMI")
          case True
          with nh nd nb lt show ?thesis by (auto simp add: stepTail_def stepSpec_def Let_def)
        next
          case False
          with nh nd nb lt d1 show ?thesis by (auto simp add: stepTail_def stepSpec_def Let_def)
        qed
      qed
    qed
  qed
qed

lemma step_spec:
  assumes lt: "i < length sql"
  shows "stepSpec sql (statements, current, i) (step config sql (statements, current, i))"
proof -
  let ?char = "sql ! i"
  note d1 = drop_one[OF lt, of current]
  from lt have l1: "i + 1 \<le> length sql" by simp
  have region: "stepSpec sql (statements, current, i) (statements, c, k)"
    if "?char \<noteq> SEMI" "i + 1 \<le> k \<and> k \<le> length sql \<and> c @ drop k sql = (current @ [?char]) @ drop (i + 1) sql"
    for c k using that lt d1 by (simp add: stepSpec_def)
  show ?thesis
  proof (cases "?char = SQUOTE")
    case True
    obtain c k where r: "singleQuoted config sql (current @ [?char]) (i + 1) = (c, k)" by force
    from True have "?char \<noteq> SEMI" by simp
    from region[OF this singleQuoted_inv[OF l1 r]] True r show ?thesis by (auto simp add: step_def)
  next
    case n1: False
    show ?thesis
    proof (cases "?char = DQUOTE")
      case True
      obtain c k where r: "quoted DQUOTE sql (current @ [?char]) (i + 1) = (c, k)" by force
      from True have "?char \<noteq> SEMI" by simp
      from region[OF this quoted_inv[OF l1 r]] True r show ?thesis by (auto simp add: step_def)
    next
      case n2: False
      show ?thesis
      proof (cases "backtickIdentifiers config \<and> ?char = BACKTICK")
        case True
        obtain c k where r: "quoted BACKTICK sql (current @ [?char]) (i + 1) = (c, k)" by force
        from True have "?char \<noteq> SEMI" by simp
        from region[OF this quoted_inv[OF l1 r]] True r show ?thesis by (auto simp add: step_def)
      next
        case n3: False
        show ?thesis
        proof (cases "bracketIdentifiers config \<and> ?char = LBRACKET")
          case True
          obtain c k where r: "quoted RBRACKET sql (current @ [?char]) (i + 1) = (c, k)" by force
          from True have "?char \<noteq> SEMI" by simp
          from region[OF this quoted_inv[OF l1 r]] n1 n2 n3 True r show ?thesis
            by (auto simp add: step_def)
        next
          case n4: False
          show ?thesis
          proof (cases "dollarQuotes config \<and> ?char = DOLLAR")
            case dq: True
            obtain tag j where t: "dollarTag sql [DOLLAR] (i + 1) = (tag, j)" by force
            from dq have ns: "?char \<noteq> SEMI" by simp
            from dollarTag_inv[OF l1 t] dq d1[of ] drop_one[OF lt, of "[]"]
            have j: "i + 1 \<le> j" "j \<le> length sql" and tj: "tag @ drop j sql = drop i sql"
              by simp_all
            show ?thesis
            proof (cases "endsWith tag DOLLAR \<and> length tag \<ge> 2")
              case valid: True
              show ?thesis
              proof (cases "indexOf sql tag j")
                case None
                have "stepSpec sql (statements, current, i)
                        (statements, current @ tag @ substringFrom sql j, length sql)"
                  using ns lt j tj by (simp add: stepSpec_def substringFrom_eq)
                with n1 n2 n3 n4 dq t valid None show ?thesis by (auto simp add: step_def)
              next
                case (Some closeIdx)
                from indexOf_Some[OF j(2) Some]
                have k: "j \<le> closeIdx" "closeIdx + length tag \<le> length sql" by simp_all
                then have "j \<le> closeIdx + length tag" by simp
                from substring_append_drop[OF this k(2)] tj
                have "(current @ tag @ substring sql j (closeIdx + length tag))
                        @ drop (closeIdx + length tag) sql = current @ drop i sql" by simp
                with ns lt j k
                have "stepSpec sql (statements, current, i)
                        (statements, current @ tag @ substring sql j (closeIdx + length tag),
                         closeIdx + length tag)"
                  by (simp add: stepSpec_def)
                with n1 n2 n3 n4 dq t valid Some show ?thesis by (auto simp add: step_def)
              qed
            next
              case invalid: False
              with n1 n2 n3 n4 dq t stepTail_spec[OF lt, of statements current config]
              show ?thesis by (auto simp add: step_def)
            qed
          next
            case n5: False
            with n1 n2 n3 n4 stepTail_spec[OF lt, of statements current config]
            show ?thesis by (auto simp add: step_def)
          qed
        qed
      qed
    qed
  qed
qed

section \<open>The outer loop and splitStatements\<close>

text \<open>
  The outer \<^verbatim>\<open>while (i < sql.length)\<close> loop (source lines 84 to 277) runs \<open>step\<close> until
  the cursor reaches the end of the input. It terminates because every iteration moves the
  cursor forward (\<open>step_spec\<close>). \<open>splitStatements\<close> starts it with no statements, an empty
  buffer and the cursor 0, and pushes the trimmed last buffer when it is not empty (source
  lines 279 to 285).
\<close>

function scan :: "SqlParserConfig \<Rightarrow> jsstring \<Rightarrow> scanState \<Rightarrow> scanState" where
  "scan config sql (statements, current, i) =
     (if i < length sql then scan config sql (step config sql (statements, current, i))
      else (statements, current, i))"
  by pat_completeness auto
termination
proof (relation "measure (\<lambda>(config, sql, statements, current, i). length sql - i)")
  show "wf (measure (\<lambda>(config, sql, statements, current, i). length sql - i))" by simp
next
  fix config :: SqlParserConfig and sql :: jsstring and statements :: "jsstring list"
    and current :: jsstring and i :: nat
  assume lt: "i < length sql"
  obtain statements' current' i' where
    s: "step config sql (statements, current, i) = (statements', current', i')"
    by (cases "step config sql (statements, current, i)") auto
  from step_spec[OF lt, of statements current config] s have "i < i'" "i' \<le> length sql"
    by (simp_all add: stepSpec_def)
  with s show "((config, sql, step config sql (statements, current, i)),
                config, sql, statements, current, i)
               \<in> measure (\<lambda>(config, sql, statements, current, i). length sql - i)"
    by simp
qed

declare scan.simps [simp del]

definition splitStatements :: "jsstring \<Rightarrow> DatabaseType \<Rightarrow> jsstring list" where
  "splitStatements sql dbType =
     (let config = SQL_PARSER_CONFIGS dbType in
      case scan config sql ([], [], 0) of
        (statements, current, i) \<Rightarrow>
          let lastStmt = trim current in
          if lastStmt \<noteq> [] then statements @ [lastStmt] else statements)"

text \<open>\<^verbatim>\<open>createStatementSplitter\<close> fixes the database type.\<close>

definition createStatementSplitter :: "DatabaseType \<Rightarrow> jsstring \<Rightarrow> jsstring list" where
  "createStatementSplitter dbType = (\<lambda>sql. splitStatements sql dbType)"

section \<open>Statement separators and segments\<close>

text \<open>
  \<open>cursors\<close> lists the values of the cursor at which the body of the outer loop is entered
  (source line 84), from a given state on. A \<^verbatim>\<open>;\<close> is handled by the separator branch
  (source lines 265 to 273) exactly when the cursor stands on it at the start of an iteration:
  every region handler is entered on another character and passes the semicolons inside its
  region within its own iteration. \<open>separators\<close> are these positions: the semicolons outside
  every quoted or commented region. \<open>cutAt start ps sql\<close> cuts the text from \<open>start\<close> at the
  ascending positions \<open>ps\<close>, leaving out the code unit at each position; \<open>segments\<close> is the
  input cut at its separators.
\<close>

function cursors :: "SqlParserConfig \<Rightarrow> jsstring \<Rightarrow> scanState \<Rightarrow> nat list" where
  "cursors config sql (statements, current, i) =
     (if i < length sql then i # cursors config sql (step config sql (statements, current, i))
      else [])"
  by pat_completeness auto
termination
proof (relation "measure (\<lambda>(config, sql, statements, current, i). length sql - i)")
  show "wf (measure (\<lambda>(config, sql, statements, current, i). length sql - i))" by simp
next
  fix config :: SqlParserConfig and sql :: jsstring and statements :: "jsstring list"
    and current :: jsstring and i :: nat
  assume lt: "i < length sql"
  obtain statements' current' i' where
    s: "step config sql (statements, current, i) = (statements', current', i')"
    by (cases "step config sql (statements, current, i)") auto
  from step_spec[OF lt, of statements current config] s have "i < i'" "i' \<le> length sql"
    by (simp_all add: stepSpec_def)
  with s show "((config, sql, step config sql (statements, current, i)),
                config, sql, statements, current, i)
               \<in> measure (\<lambda>(config, sql, statements, current, i). length sql - i)"
    by simp
qed

declare cursors.simps [simp del]

definition separatorsFrom :: "SqlParserConfig \<Rightarrow> jsstring \<Rightarrow> scanState \<Rightarrow> nat list" where
  "separatorsFrom config sql st = filter (\<lambda>p. sql ! p = SEMI) (cursors config sql st)"

definition separators :: "SqlParserConfig \<Rightarrow> jsstring \<Rightarrow> nat list" where
  "separators config sql = separatorsFrom config sql ([], [], 0)"

fun cutAt :: "nat \<Rightarrow> nat list \<Rightarrow> jsstring \<Rightarrow> jsstring list" where
  "cutAt start [] sql = [drop start sql]"
| "cutAt start (p # ps) sql = take (p - start) (drop start sql) # cutAt (p + 1) ps sql"

definition segments :: "SqlParserConfig \<Rightarrow> jsstring \<Rightarrow> jsstring list" where
  "segments config sql = cutAt 0 (separators config sql) sql"

text \<open>
  \<open>cutPost\<close> is what the outer loop establishes when it is entered at \<open>i\<close> with a buffer
  that holds the input from \<open>start\<close> to \<open>i\<close>: the statements at the end, with the trimmed
  last buffer, are the statements at entry followed by the kept segments of the input from
  \<open>start\<close>, cut at the separators met from \<open>i\<close> on; and these segments, written with a
  \<^verbatim>\<open>;\<close> between neighbours, are the input from \<open>start\<close>.
\<close>

definition cutPost :: "SqlParserConfig \<Rightarrow> jsstring \<Rightarrow> nat \<Rightarrow> scanState \<Rightarrow> bool" where
  "cutPost config sql start st =
     (case st of (statements, current, i) \<Rightarrow>
        case scan config sql st of (statements', current', i') \<Rightarrow>
          statements' @ keptSegments [current']
            = statements @ keptSegments (cutAt start (separatorsFrom config sql st) sql)
          \<and> joinWith [SEMI] (cutAt start (separatorsFrom config sql st) sql) = drop start sql)"

section \<open>The output is the kept segments of the input\<close>

lemma joinWith_Cons: "r \<noteq> [] \<Longrightarrow> joinWith sep (s # r) = s @ sep @ joinWith sep r"
  by (cases r) simp_all

lemma scan_segments:
  "snd (snd st) \<le> length sql \<Longrightarrow> scanPost sql st (scan config sql st)"
proof (induction config sql st rule: scan.induct)
  case (1 config sql statements current i)
  show ?case
  proof (cases "i < length sql")
    case False
    with "1.prems" have "i = length sql" by simp
    moreover from False have "scan config sql (statements, current, i) = (statements, current, i)"
      by (simp add: scan.simps)
    moreover have "\<exists>segs'. current = joinWith [SEMI] (segs' @ [current])
                     \<and> statements = statements @ keptSegments segs'"
      by (rule exI[of _ "[]"]) (simp add: keptSegments_def)
    ultimately show ?thesis by (simp add: scanPost_def)
  next
    case lt: True
    obtain s1 c1 i1 where st: "step config sql (statements, current, i) = (s1, c1, i1)"
      by (cases "step config sql (statements, current, i)") auto
    obtain s2 c2 i2 where res: "scan config sql (s1, c1, i1) = (s2, c2, i2)"
      by (cases "scan config sql (s1, c1, i1)") auto
    from lt st res have res': "scan config sql (statements, current, i) = (s2, c2, i2)"
      by (simp add: scan.simps)
    from step_spec[OF lt, of statements current config] st
    have sp: "i < i1" "i1 \<le> length sql"
      and semi: "sql ! i = SEMI \<Longrightarrow> i1 = i + 1 \<and> c1 = [] \<and>
                   s1 = (if trim current \<noteq> [] then statements @ [trim current] else statements)"
      and other: "sql ! i \<noteq> SEMI \<Longrightarrow> s1 = statements \<and> c1 @ drop i1 sql = current @ drop i sql"
      by (simp_all add: stepSpec_def)
    from "1.IH"[OF lt] st sp(2) res
    have ih: "scanPost sql (s1, c1, i1) (s2, c2, i2)" by simp
    then obtain segs where i2: "i2 = length sql"
      and j: "c1 @ drop i1 sql = joinWith [SEMI] (segs @ [c2])"
      and k: "s2 = s1 @ keptSegments segs"
      by (auto simp: scanPost_def)
    show ?thesis
    proof (cases "sql ! i = SEMI")
      case True
      from semi[OF True] have a: "i1 = i + 1" "c1 = []"
        "s1 = statements @ keptSegments [current]"
        by (simp_all add: keptSegments_def)
      from Cons_nth_drop_Suc[OF lt] True have "drop i sql = SEMI # drop (i + 1) sql"
        by simp
      with j a have "current @ drop i sql = joinWith [SEMI] ((current # segs) @ [c2])"
        by (simp add: joinWith_Cons)
      moreover from k a have "s2 = statements @ keptSegments (current # segs)"
        by (simp add: keptSegments_def)
      ultimately have "\<exists>segs'. current @ drop i sql = joinWith [SEMI] (segs' @ [c2])
                         \<and> s2 = statements @ keptSegments segs'"
        by blast
      with i2 have "scanPost sql (statements, current, i) (s2, c2, i2)"
        by (simp add: scanPost_def)
      with res' show ?thesis by simp
    next
      case False
      from other[OF False] j k
      have "current @ drop i sql = joinWith [SEMI] (segs @ [c2])
              \<and> s2 = statements @ keptSegments segs"
        by simp
      then have "\<exists>segs'. current @ drop i sql = joinWith [SEMI] (segs' @ [c2])
                  \<and> s2 = statements @ keptSegments segs'"
        by blast
      with i2 have "scanPost sql (statements, current, i) (s2, c2, i2)"
        by (simp add: scanPost_def)
      with res' show ?thesis by simp
    qed
  qed
qed

lemma keptSegments_snoc:
  "keptSegments (segs @ [c]) = keptSegments segs @ (if trim c \<noteq> [] then [trim c] else [])"
  by (simp add: keptSegments_def)

lemma splitStatements_segments:
  "\<exists>segs. segs \<noteq> [] \<and> sql = joinWith [SEMI] segs \<and> splitStatements sql dbType = keptSegments segs"
proof -
  let ?config = "SQL_PARSER_CONFIGS dbType"
  obtain s c k where res: "scan ?config sql ([], [], 0) = (s, c, k)"
    by (cases "scan ?config sql ([], [], 0)") auto
  from scan_segments[of "([], [], 0)" sql ?config] res
  obtain segs where j: "sql = joinWith [SEMI] (segs @ [c])" and st: "s = keptSegments segs"
    by (auto simp: scanPost_def)
  from res st have "splitStatements sql dbType = keptSegments (segs @ [c])"
    by (simp add: splitStatements_def Let_def keptSegments_snoc)
  with j show ?thesis by blast
qed

lemma keptSegments_member:
  "stmt \<in> set (keptSegments segs) \<Longrightarrow> stmt \<noteq> [] \<and> (\<exists>seg. seg \<in> set segs \<and> stmt = trim seg)"
  by (auto simp: keptSegments_def)

lemma joinWith_segment:
  "seg \<in> set segs \<Longrightarrow>
   \<exists>before after. joinWith [SEMI] segs = before @ seg @ after
      \<and> (before = [] \<or> last before = SEMI) \<and> (after = [] \<or> hd after = SEMI)"
proof (induction "[SEMI]" segs rule: joinWith.induct)
  case 1
  then show ?case by simp
next
  case (2 s)
  then have "joinWith [SEMI] [s] = [] @ seg @ []" by simp
  then show ?case by blast
next
  case (3 s t r)
  show ?case
  proof (cases "seg = s")
    case True
    then have "joinWith [SEMI] (s # t # r) = [] @ seg @ (SEMI # joinWith [SEMI] (t # r))" by simp
    moreover have "hd (SEMI # joinWith [SEMI] (t # r)) = SEMI" by simp
    ultimately show ?thesis by blast
  next
    case False
    with "3.prems" have "seg \<in> set (t # r)" by simp
    from "3.hyps"[OF this] obtain before after where
      j: "joinWith [SEMI] (t # r) = before @ seg @ after"
      and b: "before = [] \<or> last before = SEMI"
      and a: "after = [] \<or> hd after = SEMI" by blast
    from j have "joinWith [SEMI] (s # t # r) = (s @ SEMI # before) @ seg @ after" by simp
    moreover from b have "last (s @ SEMI # before) = SEMI" by auto
    ultimately show ?thesis using a by blast
  qed
qed

section \<open>Facts about trim\<close>

lemma trim_decomp:
  "\<exists>pre post. s = pre @ trim s @ post \<and> list_all isWhiteSpace pre \<and> list_all isWhiteSpace post"
proof -
  let ?d = "dropWhile isWhiteSpace s"
  let ?r = "rev ?d"
  have "?r = takeWhile isWhiteSpace ?r @ dropWhile isWhiteSpace ?r" by simp
  then have "rev ?r = rev (dropWhile isWhiteSpace ?r) @ rev (takeWhile isWhiteSpace ?r)"
    by (metis rev_append)
  then have d: "?d = trim s @ rev (takeWhile isWhiteSpace ?r)" by (simp add: trim_def)
  have "s = takeWhile isWhiteSpace s @ ?d" by simp
  with d have "s = takeWhile isWhiteSpace s @ trim s @ rev (takeWhile isWhiteSpace ?r)" by simp
  moreover have "list_all isWhiteSpace (takeWhile isWhiteSpace s)"
    by (simp add: list_all_iff) (meson set_takeWhileD)
  moreover have "list_all isWhiteSpace (rev (takeWhile isWhiteSpace ?r))"
    by (simp add: list_all_iff) (meson set_takeWhileD)
  ultimately show ?thesis by blast
qed

lemma last_dropWhile:
  "xs \<noteq> [] \<Longrightarrow> \<not> P (last xs) \<Longrightarrow> dropWhile P xs \<noteq> [] \<and> last (dropWhile P xs) = last xs"
  by (induction xs) auto

lemma trim_ends:
  assumes "trim s \<noteq> []"
  shows "\<not> isWhiteSpace (hd (trim s)) \<and> \<not> isWhiteSpace (last (trim s))"
proof -
  let ?d = "dropWhile isWhiteSpace s"
  let ?e = "dropWhile isWhiteSpace (rev ?d)"
  from assms have e: "?e \<noteq> []" unfolding trim_def by (simp only: rev_is_Nil_conv not_False_eq_True)
  then have d: "?d \<noteq> []" by (metis dropWhile.simps(1) rev.simps(1))
  from e have "\<not> isWhiteSpace (hd ?e)" by (rule hd_dropWhile)
  with e have l: "\<not> isWhiteSpace (last (trim s))" by (simp add: trim_def last_rev)
  from d have h: "\<not> isWhiteSpace (hd ?d)" by (rule hd_dropWhile)
  from d have "rev ?d \<noteq> []" by (simp only: rev_is_Nil_conv not_False_eq_True)
  moreover from d h have "\<not> isWhiteSpace (last (rev ?d))" by (simp add: last_rev)
  ultimately have "last ?e = last (rev ?d)" using last_dropWhile by blast
  with d e have "hd (trim s) = hd ?d" unfolding trim_def by (simp only: hd_rev last_rev)
  with h l show ?thesis by simp
qed

lemma noWhiteSpace_trim: "noWhiteSpace (trim s) = noWhiteSpace s"
proof -
  obtain pre post where d: "s = pre @ trim s @ post"
    and w: "list_all isWhiteSpace pre" "list_all isWhiteSpace post"
    using trim_decomp by blast
  from w have "noWhiteSpace pre = []" "noWhiteSpace post = []"
    by (simp_all add: list_all_iff)
  then have "noWhiteSpace (pre @ trim s @ post) = noWhiteSpace (trim s)" by simp
  with d show ?thesis by simp
qed

lemma trim_whitespace:
  assumes "list_all isWhiteSpace s"
  shows "trim s = []"
proof -
  from assms have "dropWhile isWhiteSpace s = []" by (simp add: list_all_iff)
  then show ?thesis unfolding trim_def by (simp only: rev.simps dropWhile.simps)
qed

lemma concat_map_keptSegments:
  assumes "\<And>s. f (trim s) = f s" "f [] = []"
  shows "concat (map f (keptSegments segs)) = concat (map f segs)"
proof (induction segs)
  case Nil
  show ?case by (simp add: keptSegments_def)
next
  case (Cons a segs)
  have k: "keptSegments (a # segs) = (if trim a \<noteq> [] then [trim a] else []) @ keptSegments segs"
    by (simp add: keptSegments_def)
  have "f a = (if trim a \<noteq> [] then f (trim a) else [])"
    using assms(1)[of a] assms(2) by (cases "trim a = []") simp_all
  with k Cons.IH show ?case by simp
qed

section \<open>The output is the kept segments between the separators\<close>

lemma cutAt_nonempty: "cutAt start ps sql \<noteq> []"
  by (cases ps) simp_all

lemma keptSegments_append: "keptSegments (xs @ ys) = keptSegments xs @ keptSegments ys"
  by (simp add: keptSegments_def)

lemma keptSegments_Cons: "keptSegments (x # xs) = keptSegments [x] @ keptSegments xs"
  by (simp add: keptSegments_def)

lemma scan_cut:
  "start \<le> snd (snd st) \<Longrightarrow> snd (snd st) \<le> length sql \<Longrightarrow>
   fst (snd st) @ drop (snd (snd st)) sql = drop start sql \<Longrightarrow>
   cutPost config sql start st"
proof (induction config sql st arbitrary: start rule: scan.induct)
  case (1 config sql statements current i)
  let ?st = "(statements, current, i)"
  from "1.prems" have si: "start \<le> i" and il: "i \<le> length sql"
    and cur: "current @ drop i sql = drop start sql" by simp_all
  show ?case
  proof (cases "i < length sql")
    case False
    with il have e: "i = length sql" by simp
    with cur have c: "current = drop start sql" by simp
    from False have "scan config sql ?st = ?st" by (simp add: scan.simps)
    moreover from False have "separatorsFrom config sql ?st = []"
      by (simp add: separatorsFrom_def cursors.simps)
    ultimately show ?thesis using c by (simp add: cutPost_def)
  next
    case lt: True
    obtain s1 c1 i1 where st: "step config sql ?st = (s1, c1, i1)"
      by (cases "step config sql ?st") auto
    from lt st have res: "scan config sql ?st = scan config sql (s1, c1, i1)"
      by (simp add: scan.simps)
    from lt st have cs: "cursors config sql ?st = i # cursors config sql (s1, c1, i1)"
      by (simp add: cursors.simps)
    from step_spec[OF lt, of statements current config] st
    have sp: "i < i1" "i1 \<le> length sql"
      and semi: "sql ! i = SEMI \<Longrightarrow> i1 = i + 1 \<and> c1 = [] \<and>
                   s1 = (if trim current \<noteq> [] then statements @ [trim current] else statements)"
      and other: "sql ! i \<noteq> SEMI \<Longrightarrow> s1 = statements \<and> c1 @ drop i1 sql = current @ drop i sql"
      by (simp_all add: stepSpec_def)
    obtain s2 c2 i2 where r2: "scan config sql (s1, c1, i1) = (s2, c2, i2)"
      by (cases "scan config sql (s1, c1, i1)") auto
    let ?rest = "separatorsFrom config sql (s1, c1, i1)"
    show ?thesis
    proof (cases "sql ! i = SEMI")
      case True
      from semi[OF True] have a: "i1 = i + 1" "c1 = []" "s1 = statements @ keptSegments [current]"
        by (simp_all add: keptSegments_def)
      from True cs have sf: "separatorsFrom config sql ?st = i # ?rest"
        by (simp add: separatorsFrom_def)
      from "1.IH"[OF lt, of "i + 1"] st a sp
      have "cutPost config sql (i + 1) (s1, c1, i1)" by simp
      with r2 have ih: "s2 @ keptSegments [c2] = s1 @ keptSegments (cutAt (i + 1) ?rest sql)"
        "joinWith [SEMI] (cutAt (i + 1) ?rest sql) = drop (i + 1) sql"
        by (simp_all add: cutPost_def)
      from cur have "length current + (length sql - i) = length sql - start"
        by (metis length_append length_drop)
      with si il have len: "length current = i - start" by simp
      from cur have "take (length current) (drop start sql) = current"
        by (metis append_eq_conv_conj)
      with len have tk: "take (i - start) (drop start sql) = current" by simp
      from Cons_nth_drop_Suc[OF lt] True have d: "drop i sql = SEMI # drop (i + 1) sql" by simp
      have c: "cutAt start (i # ?rest) sql = current # cutAt (i + 1) ?rest sql"
        using tk by simp
      have j: "joinWith [SEMI] (cutAt start (i # ?rest) sql) = drop start sql"
        unfolding c using ih(2) d cur by (simp add: joinWith_Cons cutAt_nonempty)
      have k: "s2 @ keptSegments [c2] = statements @ keptSegments (cutAt start (i # ?rest) sql)"
        unfolding c using ih(1) a(3) keptSegments_Cons[of current "cutAt (i + 1) ?rest sql"]
        by simp
      from j k sf res r2 show ?thesis by (simp add: cutPost_def)
    next
      case False
      from other[OF False] have a: "s1 = statements" "c1 @ drop i1 sql = current @ drop i sql"
        by simp_all
      from False cs have sf: "separatorsFrom config sql ?st = ?rest"
        by (simp add: separatorsFrom_def)
      from si sp have "start \<le> i1" by simp
      with "1.IH"[OF lt, of start] st a sp cur
      have "cutPost config sql start (s1, c1, i1)" by simp
      with r2 a sf res show ?thesis by (simp add: cutPost_def)
    qed
  qed
qed

lemma splitStatements_cut:
  "splitStatements sql dbType = keptSegments (segments (SQL_PARSER_CONFIGS dbType) sql)
   \<and> joinWith [SEMI] (segments (SQL_PARSER_CONFIGS dbType) sql) = sql"
proof -
  let ?config = "SQL_PARSER_CONFIGS dbType"
  obtain s c k where res: "scan ?config sql ([], [], 0) = (s, c, k)"
    by (cases "scan ?config sql ([], [], 0)") auto
  from scan_cut[of 0 "([], [], 0)" sql ?config] res
  have "s @ keptSegments [c] = keptSegments (segments ?config sql)"
    "joinWith [SEMI] (segments ?config sql) = sql"
    by (simp_all add: cutPost_def segments_def separators_def)
  moreover from res have "splitStatements sql dbType = s @ keptSegments [c]"
    by (simp add: splitStatements_def Let_def keptSegments_def)
  ultimately show ?thesis by simp
qed

lemma cursors_props:
  "sorted_wrt (<) (cursors config sql st)
   \<and> (\<forall>p\<in>set (cursors config sql st). snd (snd st) \<le> p \<and> p < length sql)"
proof (induction config sql st rule: cursors.induct)
  case (1 config sql statements current i)
  let ?st = "(statements, current, i)"
  show ?case
  proof (cases "i < length sql")
    case False
    then show ?thesis by (simp add: cursors.simps)
  next
    case lt: True
    obtain s1 c1 i1 where st: "step config sql ?st = (s1, c1, i1)"
      by (cases "step config sql ?st") auto
    from lt st have cs: "cursors config sql ?st = i # cursors config sql (s1, c1, i1)"
      by (simp add: cursors.simps)
    from step_spec[OF lt, of statements current config] st
    have sp: "i < i1" by (simp add: stepSpec_def)
    from "1.IH"[OF lt] st
    have ih: "sorted_wrt (<) (cursors config sql (s1, c1, i1))"
      "\<forall>p\<in>set (cursors config sql (s1, c1, i1)). i1 \<le> p \<and> p < length sql"
      by simp_all
    from ih sp lt show ?thesis unfolding cs by auto
  qed
qed

lemma separators_props:
  "sorted_wrt (<) (separators config sql)
   \<and> (\<forall>p\<in>set (separators config sql). p < length sql \<and> sql ! p = SEMI)"
  using cursors_props[of config sql "([], [], 0)"]
  by (auto simp: separators_def separatorsFrom_def sorted_wrt_filter)

lemma cutAt_span:
  "sorted_wrt (<) ps \<Longrightarrow> \<forall>p\<in>set ps. start \<le> p \<and> p < length sql \<Longrightarrow> start \<le> length sql \<Longrightarrow>
   seg \<in> set (cutAt start ps sql) \<Longrightarrow>
   \<exists>s e. start \<le> s \<and> s \<le> e \<and> e \<le> length sql \<and> seg = take (e - s) (drop s sql)
      \<and> (s = start \<or> (0 < s \<and> s - 1 \<in> set ps)) \<and> (e = length sql \<or> e \<in> set ps)
      \<and> (\<forall>p\<in>set ps. \<not> (s \<le> p \<and> p < e))"
proof (induction ps arbitrary: start)
  case Nil
  then have "seg = take (length sql - start) (drop start sql)" by simp
  with Nil.prems(3) show ?case by (intro exI[of _ start] exI[of _ "length sql"]) simp
next
  case (Cons p ps)
  from Cons.prems have sp: "start \<le> p" "p < length sql" and gt: "\<forall>q\<in>set ps. p < q"
    and so: "sorted_wrt (<) ps" and bd: "\<forall>q\<in>set ps. q < length sql"
    by auto
  from Cons.prems(4) consider (hd) "seg = take (p - start) (drop start sql)"
    | (tl) "seg \<in> set (cutAt (p + 1) ps sql)" by auto
  then show ?case
  proof cases
    case hd
    have "\<forall>q\<in>set (p # ps). \<not> (start \<le> q \<and> q < p)" using gt by auto
    with hd sp show ?thesis by (intro exI[of _ start] exI[of _ p]) simp
  next
    case tl
    from gt bd have "\<forall>q\<in>set ps. p + 1 \<le> q \<and> q < length sql" by auto
    moreover from sp have "p + 1 \<le> length sql" by simp
    ultimately obtain s e where
      a: "p + 1 \<le> s" "s \<le> e" "e \<le> length sql" "seg = take (e - s) (drop s sql)"
      and b: "s = p + 1 \<or> (0 < s \<and> s - 1 \<in> set ps)" and c: "e = length sql \<or> e \<in> set ps"
      and d: "\<forall>q\<in>set ps. \<not> (s \<le> q \<and> q < e)"
      using Cons.IH[OF so _ _ tl] by blast
    from a sp have "start \<le> s" by simp
    moreover from b a have "s = start \<or> (0 < s \<and> s - 1 \<in> set (p # ps))" by auto
    moreover from c have "e = length sql \<or> e \<in> set (p # ps)" by auto
    moreover from d a have "\<forall>q\<in>set (p # ps). \<not> (s \<le> q \<and> q < e)" by auto
    ultimately show ?thesis using a by blast
  qed
qed

lemma concat_cutAt:
  "sorted_wrt (<) ps \<Longrightarrow> \<forall>p\<in>set ps. start \<le> p \<and> p < length sql \<Longrightarrow>
   concat (cutAt start ps sql) = nths (drop start sql) {k. k + start \<notin> set ps}"
proof (induction ps arbitrary: start)
  case Nil
  show ?case by (simp add: nths_all)
next
  case (Cons p ps)
  from Cons.prems have sp: "start \<le> p" "p < length sql" and gt: "\<forall>q\<in>set ps. p < q"
    and so: "sorted_wrt (<) ps" and bd: "\<forall>q\<in>set ps. q < length sql"
    by auto
  define A where "A = {k. k + start \<notin> set (p # ps)}"
  define B where "B = {k. k + (p + 1) \<notin> set ps}"
  define l where "l = take (p - start) (drop start sql)"
  from gt bd have "\<forall>q\<in>set ps. p + 1 \<le> q \<and> q < length sql" by auto
  from Cons.IH[OF so this]
  have ih: "concat (cutAt (p + 1) ps sql) = nths (drop (p + 1) sql) B" by (simp add: B_def)
  from sp have len: "length l = p - start" by (simp add: l_def)
  have "drop start sql = l @ drop (p - start) (drop start sql)"
    unfolding l_def by (rule append_take_drop_id[symmetric])
  also from sp have "drop (p - start) (drop start sql) = drop p sql" by simp
  also from sp have "drop p sql = sql ! p # drop (p + 1) sql" by (simp add: Cons_nth_drop_Suc)
  finally have d: "drop start sql = l @ sql ! p # drop (p + 1) sql" .
  have l: "nths l A = l"
  proof (rule nths_all, intro allI impI)
    fix k assume "k < length l"
    with len have "k + start < p" by simp
    with gt show "k \<in> A" by (auto simp: A_def)
  qed
  have z: "0 \<notin> {j. j + length l \<in> A}" using sp by (simp add: len A_def)
  have sh: "{j. Suc j \<in> {j. j + length l \<in> A}} = B"
  proof -
    have "Suc j + (p - start) + start = j + (p + 1)" for j using sp by simp
    moreover have "j + (p + 1) \<noteq> p" for j by simp
    ultimately show ?thesis by (simp add: len A_def B_def)
  qed
  have "nths (sql ! p # drop (p + 1) sql) {j. j + length l \<in> A} = nths (drop (p + 1) sql) B"
    unfolding nths_Cons sh using z by simp
  with l have "nths (l @ sql ! p # drop (p + 1) sql) A = l @ nths (drop (p + 1) sql) B"
    by (simp only: nths_append)
  with d ih have "concat (cutAt start (p # ps) sql) = nths (drop start sql) A"
    by (simp add: l_def)
  then show ?case by (simp add: A_def)
qed

lemma filter_joinWith_map:
  "filter P (joinWith sep xs) = joinWith (filter P sep) (map (filter P) xs)"
  by (induction sep xs rule: joinWith.induct) simp_all

lemma take_span_decomp:
  "s \<le> e \<Longrightarrow> e \<le> length sql \<Longrightarrow> sql = take s sql @ take (e - s) (drop s sql) @ drop e sql"
proof -
  assume a: "s \<le> e" "e \<le> length sql"
  have "drop s sql = take (e - s) (drop s sql) @ drop (e - s) (drop s sql)"
    by (rule append_take_drop_id[symmetric])
  with a have "drop s sql = take (e - s) (drop s sql) @ drop e sql" by simp
  moreover have "sql = take s sql @ drop s sql" by simp
  ultimately show ?thesis by metis
qed

lemma last_take_nth: "0 < s \<Longrightarrow> s \<le> length xs \<Longrightarrow> last (take s xs) = xs ! (s - 1)"
proof -
  assume a: "0 < s" "s \<le> length xs"
  then have "take s xs \<noteq> []" by auto
  then have "last (take s xs) = take s xs ! (length (take s xs) - 1)" by (rule last_conv_nth)
  with a show ?thesis by simp
qed

lemma keptSegments_filter_map:
  "keptSegments segs = map trim (filter (\<lambda>s. trim s \<noteq> []) segs)"
  by (simp add: keptSegments_def filter_map comp_def)

lemma keptSegments_last:
  assumes "segs \<noteq> []" "trim (last segs) \<noteq> []"
  shows "keptSegments segs \<noteq> [] \<and> last (keptSegments segs) = trim (last segs)"
proof -
  from assms(1) have "segs = butlast segs @ [last segs]" by simp
  then have "keptSegments segs = keptSegments (butlast segs) @ keptSegments [last segs]"
    by (metis keptSegments_append)
  with assms(2) show ?thesis by (simp add: keptSegments_def)
qed

section \<open>Facts about single loops\<close>

lemma scan_funpow:
  "snd (snd st) \<le> length sql \<Longrightarrow>
   \<exists>n. n \<le> length sql - snd (snd st) \<and> (step config sql ^^ n) st = scan config sql st
       \<and> snd (snd (scan config sql st)) = length sql"
proof (induction config sql st rule: scan.induct)
  case (1 config sql statements current i)
  show ?case
  proof (cases "i < length sql")
    case False
    with "1.prems" have "i = length sql" by simp
    moreover from False have "scan config sql (statements, current, i) = (statements, current, i)"
      by (simp add: scan.simps)
    ultimately have "0 \<le> length sql - snd (snd (statements, current, i))
        \<and> (step config sql ^^ 0) (statements, current, i) = scan config sql (statements, current, i)
        \<and> snd (snd (scan config sql (statements, current, i))) = length sql"
      by simp
    then show ?thesis by blast
  next
    case lt: True
    let ?st = "(statements, current, i)"
    obtain s1 c1 i1 where st: "step config sql ?st = (s1, c1, i1)"
      by (cases "step config sql ?st") auto
    from lt st have res: "scan config sql ?st = scan config sql (s1, c1, i1)"
      by (simp add: scan.simps)
    from step_spec[OF lt, of statements current config] st
    have sp: "i < i1" "i1 \<le> length sql" by (simp_all add: stepSpec_def)
    from "1.IH"[OF lt] st sp(2) obtain n where
      n: "n \<le> length sql - i1" "(step config sql ^^ n) (s1, c1, i1) = scan config sql (s1, c1, i1)"
         "snd (snd (scan config sql (s1, c1, i1))) = length sql"
      by auto
    from n(2) st have "(step config sql ^^ Suc n) ?st = scan config sql (s1, c1, i1)"
      by (simp add: funpow_swap1)
    moreover from n(1) sp have "Suc n \<le> length sql - i" by simp
    ultimately have "Suc n \<le> length sql - snd (snd ?st)
        \<and> (step config sql ^^ Suc n) ?st = scan config sql ?st
        \<and> snd (snd (scan config sql ?st)) = length sql"
      using res n(3) by simp
    then show ?thesis by blast
  qed
qed

lemma singleQuoted_unterminated:
  "i \<le> length sql \<Longrightarrow> SQUOTE \<notin> set (drop i sql) \<Longrightarrow>
   singleQuoted config sql current i = (current @ drop i sql, length sql)"
proof (induction config sql current i rule: singleQuoted.induct)
  case (1 config sql current i)
  note eq = singleQuoted.simps[of config sql current i]
  show ?case
  proof (cases "i < length sql")
    case False
    with eq "1.prems" show ?thesis by simp
  next
    case lt: True
    have d: "drop i sql = sql ! i # drop (i + 1) sql"
      using Cons_nth_drop_Suc[OF lt] by simp
    with "1.prems"(2) have n0: "sql ! i \<noteq> SQUOTE" and n1: "SQUOTE \<notin> set (drop (i + 1) sql)"
      by auto
    have n2: "charAt sql (i + 1) \<noteq> Some SQUOTE"
    proof
      assume "charAt sql (i + 1) = Some SQUOTE"
      then have "i + 1 < length sql" "sql ! (i + 1) = SQUOTE" by (simp_all add: charAt_Some)
      then have "SQUOTE \<in> set (drop (i + 1) sql)"
        by (metis Cons_nth_drop_Suc list.set_intros(1))
      with n1 show False by simp
    qed
    from n0 lt have n3: "charAt sql i \<noteq> Some SQUOTE" by (simp add: charAt_Some)
    from lt n2 n3 have r: "singleQuoted config sql current i
        = singleQuoted config sql (current @ [sql ! i]) (i + 1)"
      by (simp add: eq)
    from n2 n3 have a: "\<not> (charAt sql i = Some SQUOTE \<and> charAt sql (i + 1) = Some SQUOTE)"
      and b: "\<not> (backslashEscape config \<and> charAt sql i = Some BACKSLASH
                \<and> charAt sql (i + 1) = Some SQUOTE)" by simp_all
    from lt have "i + 1 \<le> length sql" by simp
    from "1.IH"(3)[OF lt a b n3 this n1] r d show ?thesis by simp
  qed
qed

lemma singleQuoted_closes:
  "i \<le> k \<Longrightarrow> k < length sql \<Longrightarrow> sql ! k = SQUOTE \<Longrightarrow> charAt sql (k + 1) \<noteq> Some SQUOTE \<Longrightarrow>
   (\<forall>m. i \<le> m \<and> m < k \<longrightarrow> sql ! m \<noteq> SQUOTE \<and> sql ! m \<noteq> BACKSLASH) \<Longrightarrow>
   singleQuoted config sql current i = (current @ take (k + 1 - i) (drop i sql), k + 1)"
proof (induction config sql current i rule: singleQuoted.induct)
  case (1 config sql current i)
  note eq = singleQuoted.simps[of config sql current i]
  from "1.prems" have lt: "i < length sql" by simp
  note d = Cons_nth_drop_Suc[OF lt, symmetric]
  show ?case
  proof (cases "i = k")
    case True
    with "1.prems" lt have c: "charAt sql i = Some SQUOTE" "charAt sql (i + 1) \<noteq> Some SQUOTE"
      by (simp_all add: charAt_Some)
    from lt have "take 1 (drop i sql) = [sql ! i]" using d by simp
    with eq lt c True "1.prems"(3) show ?thesis by simp
  next
    case False
    with "1.prems"(1) have ik: "i < k" by simp
    with "1.prems"(5) have n: "sql ! i \<noteq> SQUOTE" "sql ! i \<noteq> BACKSLASH" by simp_all
    then have n1: "\<not> (charAt sql i = Some SQUOTE \<and> charAt sql (i + 1) = Some SQUOTE)"
      and n2: "\<not> (backslashEscape config \<and> charAt sql i = Some BACKSLASH
                \<and> charAt sql (i + 1) = Some SQUOTE)"
      and n3: "charAt sql i \<noteq> Some SQUOTE"
      by (simp_all add: charAt_Some)
    from ik have a: "i + 1 \<le> k" by simp
    from "1.prems"(5) have b: "\<forall>m. i + 1 \<le> m \<and> m < k \<longrightarrow> sql ! m \<noteq> SQUOTE \<and> sql ! m \<noteq> BACKSLASH"
      by simp
    from "1.IH"(3)[OF lt n1 n2 n3 a "1.prems"(2,3,4) b]
    have "singleQuoted config sql (current @ [sql ! i]) (i + 1)
            = ((current @ [sql ! i]) @ take (k + 1 - (i + 1)) (drop (i + 1) sql), k + 1)" .
    moreover from ik have "k + 1 - i = Suc (k + 1 - (i + 1))" by simp
    then have "take (k + 1 - i) (drop i sql) = sql ! i # take (k + 1 - (i + 1)) (drop (i + 1) sql)"
      using d by simp
    moreover from eq lt n1 n2 n3 have "singleQuoted config sql current i
        = singleQuoted config sql (current @ [sql ! i]) (i + 1)"
      by auto
    ultimately show ?thesis by simp
  qed
qed

lemma step_single_quoted_literal:
  assumes "i < k" "k < length sql" "sql ! i = SQUOTE" "sql ! k = SQUOTE"
    "charAt sql (k + 1) \<noteq> Some SQUOTE"
    "\<forall>m. i < m \<and> m < k \<longrightarrow> sql ! m \<noteq> SQUOTE \<and> sql ! m \<noteq> BACKSLASH"
  shows "step config sql (statements, current, i)
           = (statements, current @ take (k + 1 - i) (drop i sql), k + 1)"
proof -
  from assms(1,2) have lt: "i < length sql" by simp
  from assms(1) have a: "i + 1 \<le> k" by simp
  from assms(6) have b: "\<forall>m. i + 1 \<le> m \<and> m < k \<longrightarrow> sql ! m \<noteq> SQUOTE \<and> sql ! m \<noteq> BACKSLASH"
    by simp
  from singleQuoted_closes[OF a assms(2,4,5) b]
  have "singleQuoted config sql (current @ [SQUOTE]) (i + 1)
          = ((current @ [SQUOTE]) @ take (k + 1 - (i + 1)) (drop (i + 1) sql), k + 1)" .
  moreover from assms(1) have "k + 1 - i = Suc (k + 1 - (i + 1))" by simp
  then have "take (k + 1 - i) (drop i sql) = SQUOTE # take (k + 1 - (i + 1)) (drop (i + 1) sql)"
    using Cons_nth_drop_Suc[OF lt, symmetric] assms(3) by simp
  ultimately show ?thesis using assms(3) by (simp add: step_def)
qed

lemma dollar_step:
  assumes dq: "dollarQuotes config" and lt: "i < length sql" and ch: "sql ! i = DOLLAR"
    and t: "dollarTag sql [DOLLAR] (i + 1) = (tag, j)"
    and v: "endsWith tag DOLLAR" "2 \<le> length tag"
  shows "step config sql (statements, current, i) =
     (case indexOf sql tag j of
        Some closeIdx \<Rightarrow>
          (statements, current @ tag @ substring sql j (closeIdx + length tag),
           closeIdx + length tag)
      | None \<Rightarrow> (statements, current @ tag @ substringFrom sql j, length sql))"
  using assms by (simp add: step_def)

lemma dollar_region:
  assumes dq: "dollarQuotes config" and lt: "i < length sql" and ch: "sql ! i = DOLLAR"
    and t: "dollarTag sql [DOLLAR] (i + 1) = (tag, j)"
    and v: "endsWith tag DOLLAR" "2 \<le> length tag"
  shows "tag @ drop j sql = drop i sql \<and>
    (case indexOf sql tag j of
       Some closeIdx \<Rightarrow>
         j \<le> closeIdx \<and> take (length tag) (drop closeIdx sql) = tag
         \<and> (\<forall>m. j \<le> m \<and> m < closeIdx \<longrightarrow> take (length tag) (drop m sql) \<noteq> tag)
         \<and> step config sql (statements, current, i) =
             (statements, current @ take (closeIdx + length tag - i) (drop i sql),
              closeIdx + length tag)
     | None \<Rightarrow>
         (\<forall>m. j \<le> m \<longrightarrow> take (length tag) (drop m sql) \<noteq> tag)
         \<and> step config sql (statements, current, i) = (statements, current @ drop i sql, length sql))"
proof -
  from lt have l1: "i + 1 \<le> length sql" by simp
  from dollarTag_inv[OF l1 t] ch Cons_nth_drop_Suc[OF lt]
  have j: "i + 1 \<le> j" "j \<le> length sql" and tj: "tag @ drop j sql = drop i sql"
    by simp_all
  from tj have "length tag + (length sql - j) = length sql - i"
    by (metis length_append length_drop)
  with j lt have jl: "j = i + length tag" by simp
  note st = dollar_step[OF assms, of statements current]
  from v have tne: "tag \<noteq> []" by (simp add: endsWith_def)
  show ?thesis
  proof (cases "indexOf sql tag j")
    case None
    with j have nf: "indexFrom sql tag j = None" by (simp add: indexOf_def min_def)
    have "take (length tag) (drop m sql) \<noteq> tag" if "j \<le> m" for m
    proof (cases "m + length tag \<le> length sql")
      case True
      from indexFrom_None[OF nf that True] show ?thesis .
    next
      case False
      moreover from tne have "0 < length tag" by simp
      ultimately have "length sql - m < length tag" by arith
      then have "length (take (length tag) (drop m sql)) < length tag" by simp
      then show ?thesis by (metis less_irrefl)
    qed
    moreover from st None tj j have "step config sql (statements, current, i)
        = (statements, current @ drop i sql, length sql)"
      by (simp add: substringFrom_eq)
    ultimately show ?thesis using tj None by simp
  next
    case (Some closeIdx)
    with j have sf: "indexFrom sql tag j = Some closeIdx" by (simp add: indexOf_def min_def)
    from indexFrom_Some[OF sf]
    have k: "j \<le> closeIdx" "closeIdx + length tag \<le> length sql"
      "take (length tag) (drop closeIdx sql) = tag"
      "\<forall>m. j \<le> m \<and> m < closeIdx \<longrightarrow> take (length tag) (drop m sql) \<noteq> tag"
      by simp_all
    let ?e = "closeIdx + length tag"
    from k have je: "j \<le> ?e" by simp
    have "substring sql j ?e = take (?e - j) (drop j sql)"
      using je k(2) by (simp add: substring_def Let_def min_def max_def)
    moreover have "take (?e - i) (drop i sql) = tag @ take (?e - j) (drop j sql)"
      using tj[symmetric] jl je by simp
    ultimately have "current @ tag @ substring sql j ?e = current @ take (?e - i) (drop i sql)"
      by simp
    with st Some have "step config sql (statements, current, i)
        = (statements, current @ take (?e - i) (drop i sql), ?e)" by simp
    with k tj Some show ?thesis by simp
  qed
qed

lemma plainComment_first_close:
  "i \<le> k \<Longrightarrow> k + 1 < length sql \<Longrightarrow> sql ! k = STAR \<Longrightarrow> sql ! (k + 1) = SLASH \<Longrightarrow>
   (\<forall>m. i \<le> m \<and> m < k \<longrightarrow> \<not> (sql ! m = STAR \<and> sql ! (m + 1) = SLASH)) \<Longrightarrow>
   plainComment sql current i = (current @ take (k + 2 - i) (drop i sql), k + 2)"
proof (induction sql current i rule: plainComment.induct)
  case (1 sql current i)
  note eq = plainComment.simps[of sql current i]
  from "1.prems" have lt: "i < length sql" by simp
  note d = Cons_nth_drop_Suc[OF lt, symmetric]
  show ?case
  proof (cases "i = k")
    case True
    with "1.prems" have c: "charAt sql i = Some STAR \<and> charAt sql (i + 1) = Some SLASH"
      by (simp add: charAt_Some)
    from "1.prems"(2) True have "take 2 (drop i sql) = [sql ! i, sql ! (i + 1)]"
      by (simp add: take_Suc_conv_app_nth numeral_2_eq_2)
    with eq lt c True "1.prems"(3,4) show ?thesis by simp
  next
    case False
    with "1.prems"(1) have ik: "i < k" by simp
    with "1.prems"(5) have n: "\<not> (sql ! i = STAR \<and> sql ! (i + 1) = SLASH)" by simp
    then have nc: "\<not> (charAt sql i = Some STAR \<and> charAt sql (i + 1) = Some SLASH)"
      by (auto simp: charAt_Some)
    from ik have a: "i + 1 \<le> k" by simp
    from "1.prems"(5) have b: "\<forall>m. i + 1 \<le> m \<and> m < k \<longrightarrow> \<not> (sql ! m = STAR \<and> sql ! (m + 1) = SLASH)"
      by simp
    from "1.IH"[OF lt nc a "1.prems"(2,3,4) b]
    have "plainComment sql (current @ [sql ! i]) (i + 1)
            = ((current @ [sql ! i]) @ take (k + 2 - (i + 1)) (drop (i + 1) sql), k + 2)" .
    moreover from ik have "k + 2 - i = Suc (k + 2 - (i + 1))" by simp
    then have "take (k + 2 - i) (drop i sql) = sql ! i # take (k + 2 - (i + 1)) (drop (i + 1) sql)"
      using d by simp
    moreover from eq lt nc have "plainComment sql current i = plainComment sql (current @ [sql ! i]) (i + 1)"
      by auto
    ultimately show ?thesis by simp
  qed
qed

lemma nestedComment_closed: "nestedComment sql current i 0 = (current, i)"
  by (simp add: nestedComment.simps)

lemma nestedComment_open:
  "i + 1 < length sql \<Longrightarrow> sql ! i = SLASH \<Longrightarrow> sql ! (i + 1) = STAR \<Longrightarrow>
   nestedComment sql current i (Suc depth)
     = nestedComment sql (current @ [SLASH, STAR]) (i + 2) (Suc (Suc depth))"
  by (subst nestedComment.simps) (simp add: charAt_Some)

lemma nestedComment_close:
  "i + 1 < length sql \<Longrightarrow> sql ! i = STAR \<Longrightarrow> sql ! (i + 1) = SLASH \<Longrightarrow>
   nestedComment sql current i (Suc depth)
     = nestedComment sql (current @ [STAR, SLASH]) (i + 2) depth"
  by (subst nestedComment.simps) (simp add: charAt_Some)

section \<open>Running the splitter on concrete inputs\<close>

text \<open>The equations that evaluate \<open>splitStatements\<close> on a literal input.\<close>

lemmas run_simps = splitStatements_def scan.simps step_def stepTail_def singleQuoted.simps
  quoted.simps dollarTag.simps lineComment.simps nestedComment.simps plainComment.simps
  indexOf_def indexFrom.simps substring_def substringFrom_def endsWith_def charAt_def
  trim_def isWhiteSpace_def isTagChar_def lit_def Let_def

text \<open>The equations that evaluate \<open>separators\<close> and \<open>segments\<close> on a literal input.\<close>

lemmas cut_simps = segments_def separators_def separatorsFrom_def cursors.simps

section \<open>The claims\<close>

text \<open>
  Claim C1. For each of the four database types, \<^verbatim>\<open>SELECT ';' AS x; SELECT 2;\<close> splits
  into exactly the two statements \<^verbatim>\<open>SELECT ';' AS x\<close> and \<^verbatim>\<open>SELECT 2\<close>, in that
  order. In general, one iteration entered at the opening quote of a single-quoted literal
  that has no quote and no backslash inside and is closed at \<open>k\<close> passes the whole literal,
  pushes no statement and appends the literal as it is, semicolons included.
\<close>

theorem C1_separator_in_literal:
  "splitStatements (lit ''SELECT ';' AS x; SELECT 2;'') dbType
     = [lit ''SELECT ';' AS x'', lit ''SELECT 2'']
   \<and> (i < k \<and> k < length sql \<and> sql ! i = SQUOTE \<and> sql ! k = SQUOTE
        \<and> charAt sql (k + 1) \<noteq> Some SQUOTE
        \<and> (\<forall>m. i < m \<and> m < k \<longrightarrow> sql ! m \<noteq> SQUOTE \<and> sql ! m \<noteq> BACKSLASH)
      \<longrightarrow> step config sql (statements, current, i)
           = (statements, current @ take (k + 1 - i) (drop i sql), k + 1))"
proof -
  have "splitStatements (lit ''SELECT ';' AS x; SELECT 2;'') dbType
     = [lit ''SELECT ';' AS x'', lit ''SELECT 2'']"
    by (cases dbType) (simp_all add: run_simps)
  then show ?thesis using step_single_quoted_literal[of i k sql config statements current]
    by blast
qed

text \<open>
  The general part of C1 inside \<^verbatim>\<open>SELECT ';' AS x; SELECT 2;\<close>, entered at the opening
  quote at index 7 of the literal that holds a semicolon.
\<close>

theorem C1_separator_in_literal_witness:
  "(7::nat) < 9 \<and> 9 < length (lit ''SELECT ';' AS x; SELECT 2;'')
   \<and> lit ''SELECT ';' AS x; SELECT 2;'' ! 7 = SQUOTE
   \<and> lit ''SELECT ';' AS x; SELECT 2;'' ! 8 = SEMI
   \<and> lit ''SELECT ';' AS x; SELECT 2;'' ! 9 = SQUOTE
   \<and> step (SQL_PARSER_CONFIGS mssql) (lit ''SELECT ';' AS x; SELECT 2;'') ([], lit ''SELECT '', 7)
        = ([], lit ''SELECT ';'' @ [SQUOTE], 10)"
proof -
  let ?sql = "lit ''SELECT ';' AS x; SELECT 2;''"
  have h: "(7::nat) < 9 \<and> 9 < length ?sql \<and> ?sql ! 7 = SQUOTE \<and> ?sql ! 9 = SQUOTE
      \<and> charAt ?sql (9 + 1) \<noteq> Some SQUOTE"
    by (simp add: lit_def charAt_def)
  have s: "?sql ! 8 = SEMI" by (simp add: lit_def)
  have "?sql ! m \<noteq> SQUOTE \<and> ?sql ! m \<noteq> BACKSLASH" if "7 < m \<and> m < 9" for m
  proof -
    from that have "m = 8" by arith
    with s show ?thesis by simp
  qed
  with h C1_separator_in_literal[of mssql 7 9 ?sql "SQL_PARSER_CONFIGS mssql" "[]" "lit ''SELECT ''"]
  have "step (SQL_PARSER_CONFIGS mssql) ?sql ([], lit ''SELECT '', 7)
          = ([], lit ''SELECT '' @ take (9 + 1 - 7) (drop 7 ?sql), 9 + 1)"
    by blast
  then have "step (SQL_PARSER_CONFIGS mssql) ?sql ([], lit ''SELECT '', 7)
          = ([], lit ''SELECT ';'' @ [SQUOTE], 10)"
    by (simp add: lit_def)
  with h s show ?thesis by simp
qed

text \<open>
  Claim C2. With postgresql, \<^verbatim>\<open>DO $$ BEGIN SELECT 1; END; $$; SELECT 2;\<close> splits into two
  statements, the first being the whole dollar-quoted block with its semicolons. In general,
  when dollar quotes are enabled and the loop at a \<^verbatim>\<open>$\<close> collects a valid tag (it ends
  with \<^verbatim>\<open>$\<close> and has at least two code units), the tag is the text of the input from \<open>i\<close>
  to \<open>j\<close>, and the iteration searches forward from \<open>j\<close> for the same text: if it occurs,
  the region ends right after its first occurrence at or after \<open>j\<close>; if it does not occur,
  the region takes all the remaining input. In both cases no statement is pushed and the
  buffer grows by exactly the text of the region.
\<close>

theorem C2_dollar_quote:
  "splitStatements (lit ''DO $$ BEGIN SELECT 1; END; $$; SELECT 2;'') postgresql
     = [lit ''DO $$ BEGIN SELECT 1; END; $$'', lit ''SELECT 2'']
   \<and> (dollarQuotes config \<and> i < length sql \<and> sql ! i = DOLLAR
        \<and> dollarTag sql [DOLLAR] (i + 1) = (tag, j) \<and> endsWith tag DOLLAR \<and> 2 \<le> length tag
      \<longrightarrow> tag @ drop j sql = drop i sql \<and>
        (case indexOf sql tag j of
           Some closeIdx \<Rightarrow>
             j \<le> closeIdx \<and> take (length tag) (drop closeIdx sql) = tag
             \<and> (\<forall>m. j \<le> m \<and> m < closeIdx \<longrightarrow> take (length tag) (drop m sql) \<noteq> tag)
             \<and> step config sql (statements, current, i) =
                 (statements, current @ take (closeIdx + length tag - i) (drop i sql),
                  closeIdx + length tag)
         | None \<Rightarrow>
             (\<forall>m. j \<le> m \<longrightarrow> take (length tag) (drop m sql) \<noteq> tag)
             \<and> step config sql (statements, current, i)
                 = (statements, current @ drop i sql, length sql)))"
proof -
  have "splitStatements (lit ''DO $$ BEGIN SELECT 1; END; $$; SELECT 2;'') postgresql
     = [lit ''DO $$ BEGIN SELECT 1; END; $$'', lit ''SELECT 2'']"
    by (simp add: run_simps)
  then show ?thesis using dollar_region[of config i sql tag j statements current] by blast
qed

text \<open>
  The general part of C2 at \<^verbatim>\<open>$a$;$b$;$a$;x\<close>: the tag \<^verbatim>\<open>$a$\<close> is closed by its
  repeat at index 8, not by \<^verbatim>\<open>$b$\<close>.
\<close>

theorem C2_dollar_quote_witness:
  "dollarQuotes (SQL_PARSER_CONFIGS postgresql) \<and> (0::nat) < length (lit ''$a$;$b$;$a$;x'')
   \<and> lit ''$a$;$b$;$a$;x'' ! 0 = DOLLAR
   \<and> dollarTag (lit ''$a$;$b$;$a$;x'') [DOLLAR] (0 + 1) = (lit ''$a$'', 3)
   \<and> endsWith (lit ''$a$'') DOLLAR \<and> 2 \<le> length (lit ''$a$'')
   \<and> indexOf (lit ''$a$;$b$;$a$;x'') (lit ''$a$'') 3 = Some 8
   \<and> step (SQL_PARSER_CONFIGS postgresql) (lit ''$a$;$b$;$a$;x'') ([], [], 0)
        = ([], lit ''$a$;$b$;$a$'', 11)"
proof -
  let ?sql = "lit ''$a$;$b$;$a$;x''"
  let ?c = "SQL_PARSER_CONFIGS postgresql"
  have h: "dollarQuotes ?c \<and> (0::nat) < length ?sql \<and> ?sql ! 0 = DOLLAR
     \<and> dollarTag ?sql [DOLLAR] (0 + 1) = (lit ''$a$'', 3)
     \<and> endsWith (lit ''$a$'') DOLLAR \<and> 2 \<le> length (lit ''$a$'')"
    by (simp add: run_simps)
  have x: "indexOf ?sql (lit ''$a$'') 3 = Some 8" by (simp add: run_simps)
  from C2_dollar_quote[of ?c 0 ?sql "lit ''$a$''" 3 "[]" "[]"] h
  have "case indexOf ?sql (lit ''$a$'') 3 of
           Some closeIdx \<Rightarrow>
             step ?c ?sql ([], [], 0) =
                 ([], [] @ take (closeIdx + length (lit ''$a$'') - 0) (drop 0 ?sql),
                  closeIdx + length (lit ''$a$''))
         | None \<Rightarrow> step ?c ?sql ([], [], 0) = ([], [] @ drop 0 ?sql, length ?sql)"
    by (simp split: option.splits)
  with x have "step ?c ?sql ([], [], 0) = ([], take (8 + length (lit ''$a$'')) ?sql, 8 + length (lit ''$a$''))"
    by simp
  then have "step ?c ?sql ([], [], 0) = ([], lit ''$a$;$b$;$a$'', 11)"
    by (simp add: lit_def)
  with h x show ?thesis by simp
qed

text \<open>
  Claim C3. \<^verbatim>\<open>SQL_PARSER_CONFIGS\<close> has an entry for each of the four database types, which
  are all the database types there are (the lookup has no default case), and the entries are:
  postgresql has dollarQuotes and nestedBlockComments set and the other four flags unset;
  mysql has backtickIdentifiers, backslashEscape and hashLineComment set and the rest unset;
  mssql has only bracketIdentifiers set; sqlite has only backtickIdentifiers and
  bracketIdentifiers set.
\<close>

theorem C3_config_table:
  "(\<forall>dbType. dbType = postgresql \<or> dbType = mysql \<or> dbType = mssql \<or> dbType = sqlite)
   \<and> SQL_PARSER_CONFIGS postgresql =
       \<lparr>dollarQuotes = True, nestedBlockComments = True, backtickIdentifiers = False,
        backslashEscape = False, hashLineComment = False, bracketIdentifiers = False\<rparr>
   \<and> SQL_PARSER_CONFIGS mysql =
       \<lparr>dollarQuotes = False, nestedBlockComments = False, backtickIdentifiers = True,
        backslashEscape = True, hashLineComment = True, bracketIdentifiers = False\<rparr>
   \<and> SQL_PARSER_CONFIGS mssql =
       \<lparr>dollarQuotes = False, nestedBlockComments = False, backtickIdentifiers = False,
        backslashEscape = False, hashLineComment = False, bracketIdentifiers = True\<rparr>
   \<and> SQL_PARSER_CONFIGS sqlite =
       \<lparr>dollarQuotes = False, nestedBlockComments = False, backtickIdentifiers = True,
        backslashEscape = False, hashLineComment = False, bracketIdentifiers = True\<rparr>"
proof -
  have "dbType = postgresql \<or> dbType = mysql \<or> dbType = mssql \<or> dbType = sqlite" for dbType
    by (cases dbType) simp_all
  then show ?thesis by simp
qed

text \<open>
  Claim C4. With postgresql (nested block comments),
  \<^verbatim>\<open>SELECT 1 /* outer /* inner */ still... */; SELECT 2;\<close> splits into two statements, the
  first holding the whole comment. On \<^verbatim>\<open>/* a /* b */ ; c */ SELECT 1\<close> the two settings
  differ: with nesting the inner close does not end the comment and the semicolon stays inside
  it; without nesting (mysql) the first close ends the comment and the semicolon separates.
  The loop with nesting stops at depth 0, goes from depth \<open>d + 1\<close> to \<open>d + 2\<close> over an
  opening pair and from \<open>d + 1\<close> to \<open>d\<close> over a closing pair. The loop without nesting
  started at \<open>j\<close> ends right after the first closing pair at or after \<open>j\<close>, whatever
  opening pairs lie before it.
\<close>

theorem C4_nested_block_comment:
  "splitStatements (lit ''SELECT 1 /* outer /* inner */ still... */; SELECT 2;'') postgresql
     = [lit ''SELECT 1 /* outer /* inner */ still... */'', lit ''SELECT 2'']
   \<and> splitStatements (lit ''/* a /* b */ ; c */ SELECT 1'') postgresql
     = [lit ''/* a /* b */ ; c */ SELECT 1'']
   \<and> splitStatements (lit ''/* a /* b */ ; c */ SELECT 1'') mysql
     = [lit ''/* a /* b */'', lit ''c */ SELECT 1'']
   \<and> nestedComment sql current i 0 = (current, i)
   \<and> (a + 1 < length sql \<and> sql ! a = SLASH \<and> sql ! (a + 1) = STAR \<longrightarrow>
        nestedComment sql current a (Suc depth)
          = nestedComment sql (current @ [SLASH, STAR]) (a + 2) (Suc (Suc depth)))
   \<and> (b + 1 < length sql \<and> sql ! b = STAR \<and> sql ! (b + 1) = SLASH \<longrightarrow>
        nestedComment sql current b (Suc depth)
          = nestedComment sql (current @ [STAR, SLASH]) (b + 2) depth)
   \<and> (j \<le> k \<and> k + 1 < length sql \<and> sql ! k = STAR \<and> sql ! (k + 1) = SLASH
        \<and> (\<forall>m. j \<le> m \<and> m < k \<longrightarrow> \<not> (sql ! m = STAR \<and> sql ! (m + 1) = SLASH)) \<longrightarrow>
        plainComment sql current j = (current @ take (k + 2 - j) (drop j sql), k + 2))"
proof -
  have e1: "splitStatements (lit ''SELECT 1 /* outer /* inner */ still... */; SELECT 2;'') postgresql
     = [lit ''SELECT 1 /* outer /* inner */ still... */'', lit ''SELECT 2'']"
    by (simp add: run_simps)
  have e2: "splitStatements (lit ''/* a /* b */ ; c */ SELECT 1'') postgresql
     = [lit ''/* a /* b */ ; c */ SELECT 1'']"
    by (simp add: run_simps)
  have e3: "splitStatements (lit ''/* a /* b */ ; c */ SELECT 1'') mysql
     = [lit ''/* a /* b */'', lit ''c */ SELECT 1'']"
    by (simp add: run_simps)
  from e1 e2 e3 nestedComment_closed[of sql current i]
    nestedComment_open[of a sql current depth] nestedComment_close[of b sql current depth]
    plainComment_first_close[of j k sql current]
  show ?thesis by (intro conjI impI) (simp_all only:, blast+)
qed

text \<open>The general parts of C4 at \<^verbatim>\<open>/*/**/*/;\<close>.\<close>

theorem C4_nested_block_comment_witness:
  "(0::nat) + 1 < length (lit ''/*/**/*/;'') \<and> lit ''/*/**/*/;'' ! 0 = SLASH
   \<and> lit ''/*/**/*/;'' ! (0 + 1) = STAR
   \<and> nestedComment (lit ''/*/**/*/;'') [] 0 (Suc 0)
        = nestedComment (lit ''/*/**/*/;'') ([] @ [SLASH, STAR]) (0 + 2) (Suc (Suc 0))
   \<and> (4::nat) + 1 < length (lit ''/*/**/*/;'') \<and> lit ''/*/**/*/;'' ! 4 = STAR
   \<and> lit ''/*/**/*/;'' ! (4 + 1) = SLASH
   \<and> nestedComment (lit ''/*/**/*/;'') [] 4 (Suc 0)
        = nestedComment (lit ''/*/**/*/;'') ([] @ [STAR, SLASH]) (4 + 2) 0
   \<and> plainComment (lit ''/*/**/*/;'') [] 2 = (lit ''/**/'', 6)
   \<and> nestedComment (lit ''/*/**/*/;'') [] 2 (Suc 0) = (lit ''/**/*/'', 8)"
proof -
  let ?sql = "lit ''/*/**/*/;''"
  have h1: "(0::nat) + 1 < length ?sql \<and> ?sql ! 0 = SLASH \<and> ?sql ! (0 + 1) = STAR"
    by (simp add: lit_def)
  have h2: "(4::nat) + 1 < length ?sql \<and> ?sql ! 4 = STAR \<and> ?sql ! (4 + 1) = SLASH"
    by (simp add: lit_def)
  have c2: "\<not> (?sql ! 2 = STAR \<and> ?sql ! (2 + 1) = SLASH)" by (simp add: lit_def)
  have c3: "\<not> (?sql ! 3 = STAR \<and> ?sql ! (3 + 1) = SLASH)" by (simp add: lit_def)
  have "\<not> (?sql ! m = STAR \<and> ?sql ! (m + 1) = SLASH)" if "2 \<le> m \<and> m < 4" for m
  proof -
    from that have "m = 2 \<or> m = 3" by arith
    with c2 c3 show ?thesis by blast
  qed
  then have h3: "(2::nat) \<le> 4
      \<and> (\<forall>m. 2 \<le> m \<and> m < 4 \<longrightarrow> \<not> (?sql ! m = STAR \<and> ?sql ! (m + 1) = SLASH))"
    by simp
  note t = C4_nested_block_comment[of ?sql "[]" 0 0 0 4 2 4]
  from t h1 have r1: "nestedComment ?sql [] 0 (Suc 0)
        = nestedComment ?sql ([] @ [SLASH, STAR]) (0 + 2) (Suc (Suc 0))" by blast
  from t h2 have r2: "nestedComment ?sql [] 4 (Suc 0)
        = nestedComment ?sql ([] @ [STAR, SLASH]) (4 + 2) 0" by blast
  from t h2 h3 have "plainComment ?sql [] 2 = ([] @ take (4 + 2 - 2) (drop 2 ?sql), 4 + 2)" by blast
  then have r3: "plainComment ?sql [] 2 = (lit ''/**/'', 6)" by (simp add: lit_def)
  have r4: "nestedComment ?sql [] 2 (Suc 0) = (lit ''/**/*/'', 8)" by (simp add: run_simps)
  from h1 h2 r1 r2 r3 r4 show ?thesis by (intro conjI) (simp_all only:)
qed

text \<open>
  Claim C5. Every emitted statement is non-empty, has no white space at either end, and is a
  contiguous piece of the input: the input is some text \<open>before\<close>, white space, the
  statement, white space, and some text \<open>after\<close>, where \<open>before\<close> is empty or ends with a
  statement separator and \<open>after\<close> is empty or starts with one. No statement separator lies
  between these two, so none lies in the statement; in particular the last code unit of the
  statement is not a statement separator, and the separator that ends the statement is
  outside it. A statement separator is a \<^verbatim>\<open>;\<close> outside every quoted or commented region,
  as the glossary of the specification has it: a position in \<open>separators\<close>. (A \<^verbatim>\<open>;\<close>
  inside a comment or a quoted region is not one and is kept with the rest of the region.)
\<close>

theorem C5_statement_shape:
  assumes "stmt \<in> set (splitStatements sql dbType)"
  shows "stmt \<noteq> [] \<and> \<not> isWhiteSpace (hd stmt) \<and> \<not> isWhiteSpace (last stmt) \<and>
    (\<exists>before pre post after. sql = before @ pre @ stmt @ post @ after
        \<and> list_all isWhiteSpace pre \<and> list_all isWhiteSpace post
        \<and> (before = [] \<or> last before = SEMI
              \<and> length before - 1 \<in> set (separators (SQL_PARSER_CONFIGS dbType) sql))
        \<and> (after = [] \<or> hd after = SEMI
              \<and> length (before @ pre @ stmt @ post)
                   \<in> set (separators (SQL_PARSER_CONFIGS dbType) sql))
        \<and> (\<forall>p\<in>set (separators (SQL_PARSER_CONFIGS dbType) sql).
              \<not> (length before \<le> p \<and> p < length (before @ pre @ stmt @ post)))
        \<and> length (before @ pre @ stmt) - 1 \<notin> set (separators (SQL_PARSER_CONFIGS dbType) sql))"
proof -
  let ?seps = "separators (SQL_PARSER_CONFIGS dbType) sql"
  from splitStatements_cut[of sql dbType]
  have o: "splitStatements sql dbType = keptSegments (cutAt 0 ?seps sql)"
    by (simp add: segments_def)
  from assms o keptSegments_member obtain seg where
    ne: "stmt \<noteq> []" and seg: "seg \<in> set (cutAt 0 ?seps sql)" and t: "stmt = trim seg" by metis
  from ne t trim_ends have e: "\<not> isWhiteSpace (hd stmt)" "\<not> isWhiteSpace (last stmt)" by auto
  note sp = separators_props[of "SQL_PARSER_CONFIGS dbType" sql]
  from sp have bd: "\<forall>p\<in>set ?seps. 0 \<le> p \<and> p < length sql" by simp
  from sp have so: "sorted_wrt (<) ?seps" by simp
  from cutAt_span[OF so bd _ seg] obtain s e where
    se: "s \<le> e" "e \<le> length sql" and sg: "seg = take (e - s) (drop s sql)"
    and lo: "s = 0 \<or> (0 < s \<and> s - 1 \<in> set ?seps)" and hi: "e = length sql \<or> e \<in> set ?seps"
    and no: "\<forall>p\<in>set ?seps. \<not> (s \<le> p \<and> p < e)"
    by auto
  from trim_decomp[of seg] t obtain pre post where
    d: "seg = pre @ stmt @ post" and w: "list_all isWhiteSpace pre" "list_all isWhiteSpace post"
    by auto
  define before where "before = take s sql"
  define after where "after = drop e sql"
  from se have lb: "length before = s" by (simp add: before_def)
  from se sg have ls: "length seg = e - s" by simp
  with d have lp: "length pre + length stmt + length post = e - s" by simp
  from take_span_decomp[OF se] have "sql = before @ seg @ after"
    unfolding before_def after_def sg .
  then have dec: "sql = before @ pre @ stmt @ post @ after" unfolding d by simp
  from lb lp se have le: "length (before @ pre @ stmt @ post) = e" by simp
  have b: "before = [] \<or> last before = SEMI \<and> length before - 1 \<in> set ?seps"
  proof (cases "s = 0")
    case True
    then show ?thesis by (simp add: before_def)
  next
    case False
    with lo have m: "0 < s" "s - 1 \<in> set ?seps" by simp_all
    with sp have "sql ! (s - 1) = SEMI" by blast
    moreover from m(1) se have "last (take s sql) = sql ! (s - 1)" by (simp add: last_take_nth)
    ultimately show ?thesis using m lb by (simp add: before_def)
  qed
  have a: "after = [] \<or> hd after = SEMI \<and> length (before @ pre @ stmt @ post) \<in> set ?seps"
  proof (cases "e = length sql")
    case True
    then show ?thesis by (simp add: after_def)
  next
    case False
    with hi have m: "e \<in> set ?seps" by simp
    with sp have "e < length sql" "sql ! e = SEMI" by blast+
    then have "hd (drop e sql) = SEMI" by (simp add: hd_drop_conv_nth)
    with m le show ?thesis by (simp add: after_def)
  qed
  from no lb le
  have n: "\<forall>p\<in>set ?seps. \<not> (length before \<le> p \<and> p < length (before @ pre @ stmt @ post))"
    by simp
  from ne have "0 < length stmt" by simp
  moreover have "length (before @ pre @ stmt) = s + length pre + length stmt"
    using lb by simp
  ultimately have "s \<le> length (before @ pre @ stmt) - 1" "length (before @ pre @ stmt) - 1 < e"
    using lp se by arith+
  with no have l: "length (before @ pre @ stmt) - 1 \<notin> set ?seps" by blast
  from dec w b a n l
  have "\<exists>before pre post after. sql = before @ pre @ stmt @ post @ after
        \<and> list_all isWhiteSpace pre \<and> list_all isWhiteSpace post
        \<and> (before = [] \<or> last before = SEMI \<and> length before - 1 \<in> set ?seps)
        \<and> (after = [] \<or> hd after = SEMI \<and> length (before @ pre @ stmt @ post) \<in> set ?seps)
        \<and> (\<forall>p\<in>set ?seps. \<not> (length before \<le> p \<and> p < length (before @ pre @ stmt @ post)))
        \<and> length (before @ pre @ stmt) - 1 \<notin> set ?seps"
    by blast
  with ne e show ?thesis by blast
qed

text \<open>
  C5 at \<^verbatim>\<open>SELECT 1; SELECT 2 -- c;\<close> and its first statement: the only separator is at
  index 8, right after the statement; the \<^verbatim>\<open>;\<close> that ends the line comment is none.
\<close>

theorem C5_statement_shape_witness:
  "lit ''SELECT 1'' \<in> set (splitStatements (lit ''SELECT 1; SELECT 2 -- c;'') postgresql)
   \<and> separators (SQL_PARSER_CONFIGS postgresql) (lit ''SELECT 1; SELECT 2 -- c;'') = [8]
   \<and> splitStatements (lit ''SELECT 1; SELECT 2 -- c;'') postgresql
        = [lit ''SELECT 1'', lit ''SELECT 2 -- c;'']
   \<and> (\<exists>before pre post after.
        lit ''SELECT 1; SELECT 2 -- c;'' = before @ pre @ lit ''SELECT 1'' @ post @ after
        \<and> (after = [] \<or> hd after = SEMI \<and> length (before @ pre @ lit ''SELECT 1'' @ post) = 8)
        \<and> length (before @ pre @ lit ''SELECT 1'') - 1 \<noteq> 8)"
proof -
  let ?sql = "lit ''SELECT 1; SELECT 2 -- c;''"
  have o: "splitStatements ?sql postgresql = [lit ''SELECT 1'', lit ''SELECT 2 -- c;'']"
    by (simp add: run_simps)
  then have m: "lit ''SELECT 1'' \<in> set (splitStatements ?sql postgresql)" by simp
  have s: "separators (SQL_PARSER_CONFIGS postgresql) ?sql = [8]"
    by (simp add: cut_simps run_simps)
  from C5_statement_shape[OF m] obtain before pre post after where
    "?sql = before @ pre @ lit ''SELECT 1'' @ post @ after"
    "after = [] \<or> hd after = SEMI \<and> length (before @ pre @ lit ''SELECT 1'' @ post)
        \<in> set (separators (SQL_PARSER_CONFIGS postgresql) ?sql)"
    "length (before @ pre @ lit ''SELECT 1'') - 1
        \<notin> set (separators (SQL_PARSER_CONFIGS postgresql) ?sql)"
    by blast
  with s have "\<exists>before pre post after.
        ?sql = before @ pre @ lit ''SELECT 1'' @ post @ after
        \<and> (after = [] \<or> hd after = SEMI \<and> length (before @ pre @ lit ''SELECT 1'' @ post) = 8)
        \<and> length (before @ pre @ lit ''SELECT 1'') - 1 \<noteq> 8"
    by auto
  with m s o show ?thesis by blast
qed

text \<open>
  Claim C6, as amended. The output never has an empty entry. The input is its segments
  written with one \<^verbatim>\<open>;\<close> between neighbours, and the output is exactly the segments that
  are not empty after trimming, each trimmed and otherwise whole: a segment that is empty
  after trimming is dropped, and comment text in a segment is kept. A remainder after the
  last separator that is not empty after trimming is emitted as the last statement; a
  remainder that holds only a comment is such a remainder, since the comment is kept.
  \<^verbatim>\<open>;; SELECT 1; ; ;\<close> gives the one statement \<^verbatim>\<open>SELECT 1\<close>, and the comment in
  \<^verbatim>\<open>SELECT /* c */ 1;\<close> stays in the statement.
\<close>

theorem C6_empty_segments_dropped:
  "[] \<notin> set (splitStatements sql dbType)
   \<and> joinWith [SEMI] (segments (SQL_PARSER_CONFIGS dbType) sql) = sql
   \<and> splitStatements sql dbType
        = map trim (filter (\<lambda>s. trim s \<noteq> []) (segments (SQL_PARSER_CONFIGS dbType) sql))
   \<and> (trim (last (segments (SQL_PARSER_CONFIGS dbType) sql)) \<noteq> [] \<longrightarrow>
        splitStatements sql dbType \<noteq> []
        \<and> last (splitStatements sql dbType) = trim (last (segments (SQL_PARSER_CONFIGS dbType) sql)))
   \<and> splitStatements (lit '';; SELECT 1; ; ;'') dbType = [lit ''SELECT 1'']
   \<and> splitStatements (lit ''SELECT /* c */ 1;'') dbType = [lit ''SELECT /* c */ 1'']"
proof -
  let ?segs = "segments (SQL_PARSER_CONFIGS dbType) sql"
  from splitStatements_cut[of sql dbType]
  have o: "splitStatements sql dbType = keptSegments ?segs" and j: "joinWith [SEMI] ?segs = sql"
    by simp_all
  from o have a: "[] \<notin> set (splitStatements sql dbType)" by (simp add: keptSegments_def)
  from o have b: "splitStatements sql dbType = map trim (filter (\<lambda>s. trim s \<noteq> []) ?segs)"
    by (simp add: keptSegments_filter_map)
  have ne: "?segs \<noteq> []" by (simp add: segments_def cutAt_nonempty)
  have c: "trim (last ?segs) \<noteq> [] \<longrightarrow>
        splitStatements sql dbType \<noteq> [] \<and> last (splitStatements sql dbType) = trim (last ?segs)"
    using keptSegments_last[OF ne] o by simp
  have d: "splitStatements (lit '';; SELECT 1; ; ;'') dbType = [lit ''SELECT 1'']"
    by (cases dbType) (simp_all add: run_simps)
  have e: "splitStatements (lit ''SELECT /* c */ 1;'') dbType = [lit ''SELECT /* c */ 1'']"
    by (cases dbType) (simp_all add: run_simps)
  from a j b c d e show ?thesis by (intro conjI)
qed

text \<open>
  The amended C6 at \<^verbatim>\<open>SELECT 1; /* trailing */\<close> with mysql: the remainder after the last
  separator holds only a block comment and is emitted as the last statement.
\<close>

theorem C6_empty_segments_dropped_witness:
  "segments (SQL_PARSER_CONFIGS mysql) (lit ''SELECT 1; /* trailing */'')
     = [lit ''SELECT 1'', lit '' /* trailing */'']
   \<and> trim (last (segments (SQL_PARSER_CONFIGS mysql) (lit ''SELECT 1; /* trailing */''))) \<noteq> []
   \<and> splitStatements (lit ''SELECT 1; /* trailing */'') mysql \<noteq> []
   \<and> last (splitStatements (lit ''SELECT 1; /* trailing */'') mysql) = lit ''/* trailing */''"
proof -
  let ?sql = "lit ''SELECT 1; /* trailing */''"
  have s: "segments (SQL_PARSER_CONFIGS mysql) ?sql = [lit ''SELECT 1'', lit '' /* trailing */'']"
    by (simp add: cut_simps run_simps)
  then have t: "trim (last (segments (SQL_PARSER_CONFIGS mysql) ?sql)) = lit ''/* trailing */''"
    by (simp add: trim_def isWhiteSpace_def lit_def)
  then have n: "trim (last (segments (SQL_PARSER_CONFIGS mysql) ?sql)) \<noteq> []"
    by (simp add: lit_def)
  from C6_empty_segments_dropped[of ?sql mysql] n
  have "splitStatements ?sql mysql \<noteq> []"
    "last (splitStatements ?sql mysql) = trim (last (segments (SQL_PARSER_CONFIGS mysql) ?sql))"
    by blast+
  with s t n show ?thesis by simp
qed

text \<open>
  The claim as stated fails: it gives the comment-only trailing remainder as a case of a
  segment that is dropped, but \<^verbatim>\<open>SELECT 1; -- done\<close> has the remainder \<^verbatim>\<open> -- done\<close>
  after its last separator, and the output has the comment as its second statement.
\<close>

theorem C6_comment_only_remainder_counterexample:
  "segments (SQL_PARSER_CONFIGS postgresql) (lit ''SELECT 1; -- done'')
     = [lit ''SELECT 1'', lit '' -- done'']
   \<and> splitStatements (lit ''SELECT 1; -- done'') postgresql = [lit ''SELECT 1'', lit ''-- done'']"
  by (simp add: cut_simps run_simps)

text \<open>
  Claim C7. For each database type, \<^verbatim>\<open>SELECT 'abc\<close> gives exactly one statement, the
  trimmed input, which is the input itself. \<open>splitStatements\<close> returns a list for every input:
  there is no error result. In general, the loop of a single-quoted string entered at \<open>i\<close>
  with no \<^verbatim>\<open>'\<close> in the rest of the input appends all of the rest and ends at the end of
  the input.
\<close>

theorem C7_unterminated_literal:
  "splitStatements (lit ''SELECT 'abc'') dbType = [trim (lit ''SELECT 'abc'')]
   \<and> trim (lit ''SELECT 'abc'') = lit ''SELECT 'abc''
   \<and> (i \<le> length sql \<and> SQUOTE \<notin> set (drop i sql) \<longrightarrow>
        singleQuoted config sql current i = (current @ drop i sql, length sql))"
proof -
  have "splitStatements (lit ''SELECT 'abc'') dbType = [trim (lit ''SELECT 'abc'')]"
    by (cases dbType) (simp_all add: run_simps)
  moreover have "trim (lit ''SELECT 'abc'') = lit ''SELECT 'abc''"
    by (simp add: trim_def lit_def isWhiteSpace_def)
  ultimately show ?thesis using singleQuoted_unterminated by blast
qed

text \<open>The general part of C7 inside \<^verbatim>\<open>SELECT 'abc\<close>, entered after the opening quote.\<close>

theorem C7_unterminated_literal_witness:
  "(8::nat) \<le> length (lit ''SELECT 'abc'') \<and> SQUOTE \<notin> set (drop 8 (lit ''SELECT 'abc''))
   \<and> singleQuoted (SQL_PARSER_CONFIGS mysql) (lit ''SELECT 'abc'') (lit ''SELECT '' @ [SQUOTE]) 8
        = (lit ''SELECT 'abc'', 11)"
  using C7_unterminated_literal[of mysql 8 "lit ''SELECT 'abc''" "SQL_PARSER_CONFIGS mysql" "lit ''SELECT '' @ [SQUOTE]"]
  by (simp add: lit_def)

text \<open>
  Claim C8. The input is its segments written with one \<^verbatim>\<open>;\<close> between neighbours, the cut
  being at the statement separators and nowhere else; every separator is a \<^verbatim>\<open>;\<close> of the
  input. The output is the trimmed segments without the empty ones. The output, concatenated,
  is the input without the code units at the separator positions, once white space is deleted
  from both: no code unit at a non-separator position is lost but white space, and a
  \<^verbatim>\<open>;\<close> inside a region is kept. Joining the output with \<^verbatim>\<open>; \<close> and appending
  \<^verbatim>\<open>;\<close> gives, up to white space, the input with its separators normalised: the segments
  that are not blank, joined with \<^verbatim>\<open>;\<close> and ended with \<^verbatim>\<open>;\<close>. For
  \<^verbatim>\<open>SELECT ';' AS x; SELECT 2;\<close> the separators are at 15 and 25 (the \<^verbatim>\<open>;\<close> at 8 is
  inside the literal), and rejoining the output gives the input back.
\<close>

theorem C8_round_trip:
  "joinWith [SEMI] (segments (SQL_PARSER_CONFIGS dbType) sql) = sql
   \<and> list_all (\<lambda>p. p < length sql \<and> sql ! p = SEMI) (separators (SQL_PARSER_CONFIGS dbType) sql)
   \<and> splitStatements sql dbType
        = filter (\<lambda>s. s \<noteq> []) (map trim (segments (SQL_PARSER_CONFIGS dbType) sql))
   \<and> noWhiteSpace (concat (splitStatements sql dbType))
        = noWhiteSpace (nths sql {k. k \<notin> set (separators (SQL_PARSER_CONFIGS dbType) sql)})
   \<and> noWhiteSpace (rejoin (splitStatements sql dbType))
        = noWhiteSpace (joinWith [SEMI]
            (filter (\<lambda>s. trim s \<noteq> []) (segments (SQL_PARSER_CONFIGS dbType) sql)) @ [SEMI])
   \<and> separators (SQL_PARSER_CONFIGS dbType) (lit ''SELECT ';' AS x; SELECT 2;'') = [15, 25]
   \<and> rejoin (splitStatements (lit ''SELECT ';' AS x; SELECT 2;'') dbType)
        = lit ''SELECT ';' AS x; SELECT 2;''"
proof -
  let ?c = "SQL_PARSER_CONFIGS dbType"
  let ?segs = "segments ?c sql"
  let ?seps = "separators ?c sql"
  from splitStatements_cut[of sql dbType]
  have o: "splitStatements sql dbType = keptSegments ?segs" and j: "joinWith [SEMI] ?segs = sql"
    by simp_all
  note sp = separators_props[of ?c sql]
  from sp have a: "list_all (\<lambda>p. p < length sql \<and> sql ! p = SEMI) ?seps"
    by (simp add: list_all_iff)
  from o have b: "splitStatements sql dbType = filter (\<lambda>s. s \<noteq> []) (map trim ?segs)"
    by (simp add: keptSegments_def)
  have "concat (map noWhiteSpace (keptSegments ?segs)) = concat (map noWhiteSpace ?segs)"
    by (rule concat_map_keptSegments) (simp_all add: noWhiteSpace_trim)
  then have "noWhiteSpace (concat (keptSegments ?segs)) = noWhiteSpace (concat ?segs)"
    by (simp add: filter_concat)
  moreover from sp have "concat (cutAt 0 ?seps sql) = nths (drop 0 sql) {k. k + 0 \<notin> set ?seps}"
    by (intro concat_cutAt) simp_all
  ultimately have c: "noWhiteSpace (concat (splitStatements sql dbType))
        = noWhiteSpace (nths sql {k. k \<notin> set ?seps})"
    using o by (simp add: segments_def)
  let ?kept = "filter (\<lambda>s. trim s \<noteq> []) ?segs"
  have w: "isWhiteSpace 0x20" by (simp add: isWhiteSpace_def)
  have ns: "\<not> isWhiteSpace SEMI" by (simp add: isWhiteSpace_def)
  from o have ok: "splitStatements sql dbType = map trim ?kept"
    by (simp add: keptSegments_filter_map)
  have m: "map noWhiteSpace (map trim ?kept) = map noWhiteSpace ?kept"
    by (simp add: noWhiteSpace_trim)
  have s1: "noWhiteSpace (joinWith [SEMI, 0x20] (map trim ?kept))
          = joinWith (noWhiteSpace [SEMI, 0x20]) (map noWhiteSpace (map trim ?kept))"
    by (rule filter_joinWith_map)
  have s2: "noWhiteSpace (joinWith [SEMI] ?kept)
          = joinWith (noWhiteSpace [SEMI]) (map noWhiteSpace ?kept)"
    by (rule filter_joinWith_map)
  have s3: "noWhiteSpace [SEMI, 0x20] = noWhiteSpace [SEMI]" using w ns by simp
  from s1 s2 s3 m
  have "noWhiteSpace (joinWith [SEMI, 0x20] (map trim ?kept)) = noWhiteSpace (joinWith [SEMI] ?kept)"
    by (simp only:)
  then have d: "noWhiteSpace (rejoin (splitStatements sql dbType))
        = noWhiteSpace (joinWith [SEMI] ?kept @ [SEMI])"
    using ok by (simp add: rejoin_def)
  have e: "separators ?c (lit ''SELECT ';' AS x; SELECT 2;'') = [15, 25]"
    by (cases dbType) (simp_all add: cut_simps run_simps)
  have f: "rejoin (splitStatements (lit ''SELECT ';' AS x; SELECT 2;'') dbType)
        = lit ''SELECT ';' AS x; SELECT 2;''"
    by (cases dbType) (simp_all add: rejoin_def run_simps)
  from j a b c d e f show ?thesis by (intro conjI)
qed

text \<open>
  Claim C9. Every iteration of the outer loop entered at \<open>i\<close> below the length of the input
  leaves the cursor strictly greater than \<open>i\<close> and at most the length of the input. The outer
  loop ends after at most as many iterations as the input has code units, with the cursor at
  the end of the input, and \<open>splitStatements\<close> returns the statements of that state and the
  trimmed last buffer when it is not empty. (All loops are total functions; the result type
  has no error.)
\<close>

theorem C9_terminates:
  "(i < length sql \<longrightarrow>
      (case step config sql (statements, current, i) of
         (statements', current', i') \<Rightarrow> i < i' \<and> i' \<le> length sql))
   \<and> (\<exists>n stmts cur. n \<le> length sql
         \<and> (step (SQL_PARSER_CONFIGS dbType) sql ^^ n) ([], [], 0) = (stmts, cur, length sql)
         \<and> scan (SQL_PARSER_CONFIGS dbType) sql ([], [], 0) = (stmts, cur, length sql)
         \<and> splitStatements sql dbType
             = (if trim cur \<noteq> [] then stmts @ [trim cur] else stmts))"
proof -
  have a: "case step config sql (statements, current, i) of
         (statements', current', i') \<Rightarrow> i < i' \<and> i' \<le> length sql" if "i < length sql"
    using step_spec[OF that, of statements current config]
    by (cases "step config sql (statements, current, i)") (simp add: stepSpec_def)
  let ?c = "SQL_PARSER_CONFIGS dbType"
  from scan_funpow[of "([], [], 0)" sql ?c] obtain n where
    n: "n \<le> length sql" "(step ?c sql ^^ n) ([], [], 0) = scan ?c sql ([], [], 0)"
       "snd (snd (scan ?c sql ([], [], 0))) = length sql"
    by auto
  obtain stmts cur k where r: "scan ?c sql ([], [], 0) = (stmts, cur, k)"
    by (cases "scan ?c sql ([], [], 0)") auto
  with n(3) have k: "k = length sql" by simp
  from r have "splitStatements sql dbType = (if trim cur \<noteq> [] then stmts @ [trim cur] else stmts)"
    by (simp add: splitStatements_def Let_def)
  with n r k have "\<exists>n stmts cur. n \<le> length sql
         \<and> (step ?c sql ^^ n) ([], [], 0) = (stmts, cur, length sql)
         \<and> scan ?c sql ([], [], 0) = (stmts, cur, length sql)
         \<and> splitStatements sql dbType = (if trim cur \<noteq> [] then stmts @ [trim cur] else stmts)"
    by auto
  with a show ?thesis by blast
qed

text \<open>The first part of C9 at the input \<^verbatim>\<open>a;b\<close> and the cursor 0.\<close>

theorem C9_terminates_witness:
  "(0::nat) < length (lit ''a;b'')
   \<and> (case step (SQL_PARSER_CONFIGS mysql) (lit ''a;b'') ([], [], 0) of
         (statements', current', i') \<Rightarrow> 0 < i' \<and> i' \<le> length (lit ''a;b''))"
  using C9_terminates[of 0 "lit ''a;b''" "SQL_PARSER_CONFIGS mysql" "[]" "[]" mysql]
  by (simp add: run_simps)

text \<open>
  Claim C10. The empty input gives no statement, and so does every input that consists only
  of code units that \<^verbatim>\<open>trim\<close> treats as white space, for every database type.
\<close>

theorem C10_whitespace_only:
  "splitStatements [] dbType = []
   \<and> (list_all isWhiteSpace sql \<longrightarrow> splitStatements sql dbType = [])"
proof -
  have w: "splitStatements s dbType = []" if ws: "list_all isWhiteSpace s" for s
  proof -
    obtain segs where j: "s = joinWith [SEMI] segs"
      and o: "splitStatements s dbType = keptSegments segs"
      using splitStatements_segments by blast
    have "trim seg = []" if "seg \<in> set segs" for seg
    proof -
      from joinWith_segment[OF that] j obtain before after where "s = before @ seg @ after"
        by auto
      with ws have "list_all isWhiteSpace seg" by (metis list_all_append)
      then show ?thesis by (rule trim_whitespace)
    qed
    then have "keptSegments segs = []" by (simp add: keptSegments_def filter_empty_conv)
    with o show ?thesis by simp
  qed
  from w[of "[]"] w[of sql] show ?thesis by simp
qed

text \<open>C10 at the input space, line feed, tab, space.\<close>

theorem C10_whitespace_only_witness:
  "list_all isWhiteSpace [0x20, 0x0A, 0x09, 0x20]
   \<and> splitStatements [0x20, 0x0A, 0x09, 0x20] sqlite = []"
  using C10_whitespace_only[of sqlite "[0x20, 0x0A, 0x09, 0x20]"]
  by (simp add: isWhiteSpace_def)

end
